(* ===== verification/HM_Prelude.thy ===== *)
theory HM_Prelude
  imports Complex_Main "HOL-Library.Multiset"
begin

text \<open>
  Shared vocabulary of the hash-map development: the Python exceptions the code can raise,
  the result type of a Python computation (an exception, a value, or no result at all when a
  loop does not end), the two binds that thread them, Python's list indexing with its
  \<open>IndexError\<close>, and the generic list lemmas the component theories share.
\<close>

section \<open>Python exceptions and results\<close>

datatype error =
    IndexError
  | KeyError
  | TypeError
  | AttributeError
  | ZeroDivisionError

text \<open>
  A Python statement sequence either raises (\<open>Inl e\<close>) or yields a value (\<open>Inr x\<close>).
  A computation that contains a \<open>while\<close> loop with no termination argument of its own
  is a \<open>pyres\<close>: \<open>None\<close> when the loop runs forever.
\<close>

type_synonym 'a pyres = "(error + 'a) option"

definition sbind :: "error + 'a \<Rightarrow> ('a \<Rightarrow> error + 'b) \<Rightarrow> error + 'b" where
  "sbind m f = (case m of Inl e \<Rightarrow> Inl e | Inr x \<Rightarrow> f x)"

definition pbind :: "'a pyres \<Rightarrow> ('a \<Rightarrow> 'b pyres) \<Rightarrow> 'b pyres" where
  "pbind m f = Option.bind m (\<lambda>r. case r of Inl e \<Rightarrow> Some (Inl e) | Inr x \<Rightarrow> f x)"

named_theorems py_eval "rules that evaluate the Python model on concrete inputs"

lemma sbind_simps [simp, py_eval]:
  "sbind (Inl e) f = Inl e"
  "sbind (Inr x) f = f x"
  by (simp_all add: sbind_def)

lemma pbind_simps [simp, py_eval]:
  "pbind None f = None"
  "pbind (Some (Inl e)) f = Some (Inl e)"
  "pbind (Some (Inr x)) f = f x"
  by (simp_all add: pbind_def)

text \<open>
  Weak congruences: only the first argument of a bind is simplified before the bind is
  reduced, so that unfolding a recursive definition stops at the first undecided step.
\<close>

lemma sbind_cong_weak [cong]: "m = m' \<Longrightarrow> sbind m f = sbind m' f"
  by simp

lemma pbind_cong_weak [cong]: "m = m' \<Longrightarrow> pbind m f = pbind m' f"
  by simp

lemma sbind_eq_Inr_iff:
  "sbind m f = Inr y \<longleftrightarrow> (\<exists>x. m = Inr x \<and> f x = Inr y)"
  by (cases m) auto

lemma pbind_eq_Some_Inr_iff:
  "pbind m f = Some (Inr y) \<longleftrightarrow> (\<exists>x. m = Some (Inr x) \<and> f x = Some (Inr y))"
  by (cases m) (auto simp: pbind_def split: sum.splits)

lemma pbind_Some_iff:
  "(\<exists>r. pbind m f = Some r) \<longleftrightarrow>
     (\<exists>r. m = Some r) \<and> (\<forall>x. m = Some (Inr x) \<longrightarrow> (\<exists>r. f x = Some r))"
  by (cases m) (auto simp: pbind_def split: sum.splits)

lemma pbind_assoc: "pbind (pbind m f) g = pbind m (\<lambda>x. pbind (f x) g)"
  by (cases m) (auto simp: pbind_def split: sum.splits)

lemma pbind_Some_Inr_right [simp]: "pbind m (\<lambda>x. Some (Inr x)) = m"
  by (cases m) (auto simp: pbind_def split: sum.splits)

lemma pbind_mono [partial_function_mono]:
  assumes "mono_option B" and "\<And>y. mono_option (\<lambda>f. C y f)"
  shows "mono_option (\<lambda>f. pbind (B f) (\<lambda>y. C y f))"
  unfolding pbind_def
proof (rule bind_mono [OF assms(1)])
  fix r
  show "mono_option (\<lambda>f. case r of Inl e \<Rightarrow> Some (Inl e) | Inr x \<Rightarrow> C x f)"
    by (cases r) (simp_all add: assms(2) option.const_mono)
qed

section \<open>Python list indexing\<close>

text \<open>
  \<open>xs[i]\<close> and \<open>xs[i] = v\<close> on a Python list: a negative index counts from the end,
  and an index outside \<open>-len(xs) .. len(xs) - 1\<close> raises \<open>IndexError\<close>.
\<close>

definition py_index :: "'a list \<Rightarrow> int \<Rightarrow> nat option" where
  "py_index xs i =
     (let n = int (length xs); j = (if i < 0 then n + i else i)
      in if 0 \<le> j \<and> j < n then Some (nat j) else None)"

definition py_nth :: "'a list \<Rightarrow> int \<Rightarrow> error + 'a" where
  "py_nth xs i = (case py_index xs i of None \<Rightarrow> Inl IndexError | Some j \<Rightarrow> Inr (xs ! j))"

definition py_set :: "'a list \<Rightarrow> int \<Rightarrow> 'a \<Rightarrow> error + 'a list" where
  "py_set xs i v = (case py_index xs i of None \<Rightarrow> Inl IndexError | Some j \<Rightarrow> Inr (xs[j := v]))"

declare py_index_def [py_eval] py_nth_def [py_eval] py_set_def [py_eval]

lemma py_index_in_range [simp]:
  "0 \<le> i \<Longrightarrow> i < int (length xs) \<Longrightarrow> py_index xs i = Some (nat i)"
  by (simp add: py_index_def)

lemma py_index_Some_nonneg:
  "0 \<le> i \<Longrightarrow> py_index xs i = Some j \<longleftrightarrow> i < int (length xs) \<and> j = nat i"
  by (auto simp: py_index_def)

lemma py_nth_in_range [simp]:
  "0 \<le> i \<Longrightarrow> i < int (length xs) \<Longrightarrow> py_nth xs i = Inr (xs ! nat i)"
  by (simp add: py_nth_def)

lemma py_nth_beyond [simp]:
  "int (length xs) \<le> i \<Longrightarrow> py_nth xs i = Inl IndexError"
  by (simp add: py_nth_def py_index_def)

lemma py_set_in_range [simp]:
  "0 \<le> i \<Longrightarrow> i < int (length xs) \<Longrightarrow> py_set xs i v = Inr (xs[nat i := v])"
  by (simp add: py_set_def)

lemma py_nth_Inr_nonneg:
  "0 \<le> i \<Longrightarrow> py_nth xs i = Inr x \<longleftrightarrow> i < int (length xs) \<and> x = xs ! nat i"
  by (cases "i < int (length xs)") auto

lemma py_nth_Inr_lt: "py_nth xs i = Inr x \<Longrightarrow> i < int (length xs)"
  by (auto simp: py_nth_def py_index_def Let_def split: option.splits if_splits)

lemma py_nth_mem: "py_nth xs i = Inr x \<Longrightarrow> x \<in> set xs"
  by (auto simp: py_nth_def py_index_def Let_def split: option.splits if_splits)

lemma py_set_Inr: "py_set xs i v = Inr ys \<Longrightarrow> \<exists>j. ys = xs[j := v]"
  by (auto simp: py_set_def split: option.splits)

text \<open>Lists written with numerals, as concrete tables are, evaluate element by element.\<close>

lemma replicate_numeral [py_eval]: "replicate (numeral k) x = x # replicate (pred_numeral k) x"
  by (simp add: numeral_eq_Suc)

lemma list_update_Cons_numeral [py_eval]:
  "(x # xs)[numeral k := v] = x # xs[pred_numeral k := v]"
  by (simp add: numeral_eq_Suc)

section \<open>Counting and cyclic segments of a list\<close>

text \<open>
  The slot array is scanned cyclically: the position \<open>j\<close> steps after \<open>a\<close> is
  \<open>(a + j) mod n\<close>. \<open>cdist n a p\<close> is the number of steps from \<open>a\<close> to \<open>p\<close>.
\<close>

definition cdist :: "nat \<Rightarrow> nat \<Rightarrow> nat \<Rightarrow> nat" where
  "cdist n a p = (if a \<le> p then p - a else n - a + p)"

lemma cdist_self [simp]: "cdist n a a = 0"
  by (simp add: cdist_def)

lemma cdist_lt: "a < n \<Longrightarrow> p < n \<Longrightarrow> cdist n a p < n"
  by (auto simp: cdist_def)

lemma cdist_mod: "a < n \<Longrightarrow> p < n \<Longrightarrow> (a + cdist n a p) mod n = p"
  by (auto simp: cdist_def)

lemma cdist_of_mod: "a < n \<Longrightarrow> j < n \<Longrightarrow> cdist n a ((a + j) mod n) = j"
proof (cases "a + j < n")
  case True
  then show ?thesis by (simp add: cdist_def)
next
  case False
  assume "a < n" "j < n"
  with False have "(a + j) mod n = a + j - n"
    by (simp add: le_mod_geq)
  with False \<open>a < n\<close> \<open>j < n\<close> show ?thesis
    by (auto simp: cdist_def)
qed

lemma count_list_update:
  "i < length xs \<Longrightarrow>
   count_list (xs[i := v]) x + (if xs ! i = x then 1 else 0) =
     count_list xs x + (if v = x then 1 else 0)"
proof (induction xs arbitrary: i)
  case Nil
  then show ?case by simp
next
  case (Cons y ys)
  show ?case
  proof (cases i)
    case 0
    then show ?thesis by simp
  next
    case (Suc j)
    with Cons.prems have "j < length ys" by simp
    then have "count_list (ys[j := v]) x + (if ys ! j = x then 1 else 0) =
        count_list ys x + (if v = x then 1 else 0)"
      by (rule Cons.IH)
    with Suc show ?thesis by (auto split: if_splits)
  qed
qed

lemma count_list_pos_iff: "0 < count_list xs x \<longleftrightarrow> x \<in> set xs"
  by (induction xs) auto

end
