(* ===== verification/Hash_Strategy.thy ===== *)
theory Hash_Strategy
  imports HM_Prelude
begin

text \<open>
  The three digest functions of \<^verbatim>\<open>Hashmap\<close> (\<^verbatim>\<open>hash_func\<close>,
  \<^verbatim>\<open>hash_func1\<close>, \<^verbatim>\<open>hash_func2\<close> in \<^verbatim>\<open>src/hashmap.py\<close>), the
  dispatch on \<^verbatim>\<open>hashtype\<close> that every operation repeats, and the reduction of the
  digest modulo the capacity. Keys are the words of the text (Python strings) or the
  key of the \<^verbatim>\<open>DELETED\<close> sentinel, an instance of \<^verbatim>\<open>_delobj\<close> that has no
  \<^verbatim>\<open>len\<close>.
\<close>

section \<open>Keys\<close>

datatype pykey = KStr string | KDel

text \<open>
  Python's \<^verbatim>\<open>ord\<close> of one character. The model's characters are bytes, so the
  code points modelled are 0 to 255.
\<close>

definition py_ord :: "char \<Rightarrow> int" where
  "py_ord c = int (of_char c)"

type_synonym native_hash = "pykey \<Rightarrow> int"

section \<open>The digests\<close>

text \<open>
  \<^verbatim>\<open>hash_func1\<close>: \<^verbatim>\<open>while index < keyLen: hashOutput += ord(hashKey[index]) * 31 ** index\<close>.
  Python integers do not overflow, so the sum is an unbounded \<open>int\<close>.
\<close>

function hash_func1_loop :: "string \<Rightarrow> int \<Rightarrow> int \<Rightarrow> int" where
  "hash_func1_loop k index hashOutput =
     (if index < int (length k)
      then hash_func1_loop k (index + 1) (hashOutput + py_ord (k ! nat index) * 31 ^ nat index)
      else hashOutput)"
  by pat_completeness auto
termination
  by (relation "measure (\<lambda>(k, index, _). nat (int (length k) - index))") auto

declare hash_func1_loop.simps [simp del]

fun hash_func1 :: "pykey \<Rightarrow> error + int" where
  "hash_func1 (KStr k) = Inr (hash_func1_loop k 0 0)"
| "hash_func1 KDel = Inl TypeError"

text \<open>\<^verbatim>\<open>hash_func2\<close>: the sum of the character codes.\<close>

function hash_func2_loop :: "string \<Rightarrow> int \<Rightarrow> int \<Rightarrow> int" where
  "hash_func2_loop k index hashOutput =
     (if index < int (length k)
      then hash_func2_loop k (index + 1) (hashOutput + py_ord (k ! nat index))
      else hashOutput)"
  by pat_completeness auto
termination
  by (relation "measure (\<lambda>(k, index, _). nat (int (length k) - index))") auto

declare hash_func2_loop.simps [simp del]

fun hash_func2 :: "pykey \<Rightarrow> error + int" where
  "hash_func2 (KStr k) = Inr (hash_func2_loop k 0 0)"
| "hash_func2 KDel = Inl TypeError"

text \<open>
  \<^verbatim>\<open>hash_func\<close> returns Python's built-in \<^verbatim>\<open>hash(key)\<close>, which is seeded per
  process: it is a parameter of the model, defined on every key.
\<close>

definition hash_func :: "native_hash \<Rightarrow> pykey \<Rightarrow> error + int" where
  "hash_func nh key = Inr (nh key)"

text \<open>
  The dispatch \<^verbatim>\<open>if self.hashtype == 1: ... elif self.hashtype == 0: ... else: ...\<close>
  followed by \<^verbatim>\<open>% self.cap\<close>: Python's \<^verbatim>\<open>%\<close> rounds towards minus infinity, as
  \<open>mod\<close> on \<open>int\<close> does, and raises on a zero divisor.
\<close>

definition digest :: "native_hash \<Rightarrow> int \<Rightarrow> pykey \<Rightarrow> error + int" where
  "digest nh hashtype key =
     (if hashtype = 1 then hash_func1 key
      else if hashtype = 0 then hash_func nh key
      else hash_func2 key)"

definition py_mod :: "int \<Rightarrow> int \<Rightarrow> error + int" where
  "py_mod a b = (if b = 0 then Inl ZeroDivisionError else Inr (a mod b))"

definition hash_index :: "native_hash \<Rightarrow> int \<Rightarrow> int \<Rightarrow> pykey \<Rightarrow> error + int" where
  "hash_index nh hashtype cap key = sbind (digest nh hashtype key) (\<lambda>h. py_mod h cap)"

declare hash_func_def [py_eval] digest_def [py_eval] py_mod_def [py_eval]
  hash_index_def [py_eval] py_ord_def [py_eval]
  hash_func1_loop.simps [py_eval] hash_func2_loop.simps [py_eval]

section \<open>Reference digests\<close>

text \<open>What the loops compute, as the closed sums of the specification.\<close>

definition poly_digest :: "string \<Rightarrow> int" where
  "poly_digest k = (\<Sum>i<length k. py_ord (k ! i) * 31 ^ i)"

definition sum_digest :: "string \<Rightarrow> int" where
  "sum_digest k = sum_list (map py_ord k)"

section \<open>Lemmas\<close>

lemma py_ord_nonneg [simp]: "0 \<le> py_ord c"
  by (simp add: py_ord_def)

lemma py_ord_bound: "py_ord c < 256"
proof -
  have "of_char c < (256::nat)" by (rule nat_of_char_less_256)
  then show ?thesis by (simp add: py_ord_def)
qed

lemma hash_func1_loop_sum:
  "0 \<le> i \<Longrightarrow> hash_func1_loop k i acc =
     acc + (\<Sum>j\<in>{nat i..<length k}. py_ord (k ! j) * 31 ^ j)"
proof (induction k i acc rule: hash_func1_loop.induct)
  case (1 k index acc)
  show ?case
  proof (cases "index < int (length k)")
    case True
    with "1.prems" have split: "{nat index..<length k} = insert (nat index) {Suc (nat index)..<length k}"
      by auto
    from True "1.prems" "1.IH" show ?thesis
      by (simp add: hash_func1_loop.simps [of k index] split nat_add_distrib)
  next
    case False
    then show ?thesis by (simp add: hash_func1_loop.simps [of k index])
  qed
qed

lemma hash_func2_loop_sum:
  "0 \<le> i \<Longrightarrow> hash_func2_loop k i acc = acc + (\<Sum>j\<in>{nat i..<length k}. py_ord (k ! j))"
proof (induction k i acc rule: hash_func2_loop.induct)
  case (1 k index acc)
  show ?case
  proof (cases "index < int (length k)")
    case True
    with "1.prems" have split: "{nat index..<length k} = insert (nat index) {Suc (nat index)..<length k}"
      by auto
    from True "1.prems" "1.IH" show ?thesis
      by (simp add: hash_func2_loop.simps [of k index] split nat_add_distrib)
  next
    case False
    then show ?thesis by (simp add: hash_func2_loop.simps [of k index])
  qed
qed

lemma sum_list_map_nth: "sum_list (map f xs) = (\<Sum>i<length xs. f (xs ! i))"
  by (simp add: sum_list_sum_nth lessThan_atLeast0)

lemma poly_digest_nonneg: "0 \<le> poly_digest k"
  by (simp add: poly_digest_def sum_nonneg)

lemma sum_digest_nonneg: "0 \<le> sum_digest k"
  unfolding sum_digest_def by (induction k) simp_all

lemma hash_func2_sum_digest: "hash_func2 (KStr k) = Inr (sum_digest k)"
  by (simp add: hash_func2_loop_sum sum_digest_def sum_list_map_nth atLeast0LessThan)

lemma sum_digest_mset: "sum_digest k = sum_mset (image_mset py_ord (mset k))"
  by (simp add: sum_digest_def sum_mset_sum_list [symmetric])

section \<open>Properties of the strategies\<close>

text \<open>
  Claim C18: \<^verbatim>\<open>hash_func1\<close>'s loop computes the polynomial digest of the
  specification, the sum over the positions \<open>i\<close> of \<open>ord(key[i]) * 31^i\<close>, for every
  string key.
\<close>

theorem hash_func1_poly: "hash_func1 (KStr k) = Inr (poly_digest k)"
  by (simp add: hash_func1_loop_sum poly_digest_def atLeast0LessThan)

text \<open>
  Claim C19: \<^verbatim>\<open>hash_func2\<close>'s loop computes the sum of the character codes of
  the key, for every string key.
\<close>

theorem hash_func2_sum: "hash_func2 (KStr k) = Inr (sum_digest k)"
  by (rule hash_func2_sum_digest)

text \<open>
  Claim C20: \<^verbatim>\<open>hash_func2\<close> depends only on the multiset of characters of the key:
  two anagrams always collide under the sum digest.
\<close>

theorem hash_func2_anagram:
  assumes "mset k = mset k'"
  shows "hash_func2 (KStr k) = hash_func2 (KStr k')"
proof -
  from assms have "sum_digest k = sum_digest k'" by (simp add: sum_digest_mset)
  then show ?thesis by (simp only: hash_func2_sum_digest)
qed

theorem hash_func2_anagram_witness:
  "mset ''ab'' = mset ''ba'' \<and> hash_func2 (KStr ''ab'') = hash_func2 (KStr ''ba'')"
proof -
  have m: "mset ''ab'' = mset ''ba''" by simp
  show ?thesis using hash_func2_anagram [OF m] m by simp
qed

lemma hash_index_bounds:
  "hash_index nh ht c key = Inr i \<Longrightarrow> 0 < c \<Longrightarrow> 0 \<le> i \<and> i < c"
  by (auto simp: hash_index_def sbind_eq_Inr_iff py_mod_def split: if_splits)

lemma hash_index_KDel: "ht \<noteq> 0 \<Longrightarrow> hash_index nh ht c KDel = Inl TypeError"
  by (simp add: hash_index_def digest_def)

end
