(* ===== verification/Hashmap_State.thy ===== *)
theory Hashmap_State
  imports Hash_Strategy
begin

text \<open>
  The state of a \<^verbatim>\<open>Hashmap\<close> object (\<^verbatim>\<open>__slots__\<close> and \<^verbatim>\<open>__init__\<close>,
  \<^verbatim>\<open>src/hashmap.py\<close> lines 5--34): the slot array, whose cells are \<^verbatim>\<open>None\<close> or an
  \<^verbatim>\<open>Entry(key, value)\<close> namedtuple, the \<^verbatim>\<open>DELETED\<close> tombstone, which is itself an
  \<^verbatim>\<open>Entry\<close> whose key is the \<^verbatim>\<open>_delobj\<close> sentinel, and the counters. The theory
  also defines what the table means (the map of its live string keys) and the two halves of
  its well-formedness: the shape invariant (lengths, occupancy count, load factor) and the
  key invariant (every live key is reachable by linear probing from its home index, and no
  string key occurs twice).
\<close>

section \<open>Values, slots and the table record\<close>

text \<open>
  The values the program stores: the integers of the word count, and \<^verbatim>\<open>None\<close>, the
  value of the \<^verbatim>\<open>DELETED\<close> entry.
\<close>

datatype pyval = VInt int | VNone

text \<open>\<^verbatim>\<open>self.get(key) + 1\<close>: adding to \<^verbatim>\<open>None\<close> raises \<^verbatim>\<open>TypeError\<close>.\<close>

fun py_add1 :: "pyval \<Rightarrow> error + pyval" where
  "py_add1 (VInt n) = Inr (VInt (n + 1))"
| "py_add1 VNone = Inl TypeError"

text \<open>A cell of \<^verbatim>\<open>self.table\<close>: \<^verbatim>\<open>None\<close> or \<^verbatim>\<open>Entry(key, value)\<close>.\<close>

datatype slot = Empty | Entry pykey pyval

text \<open>\<^verbatim>\<open>DELETED = Entry(_delobj(), None)\<close>.\<close>

definition DELETED :: slot where
  "DELETED = Entry KDel VNone"

text \<open>The loop guard \<^verbatim>\<open>self.table[index] is not None and self.table[index].key != key\<close>.\<close>

fun occupied_other :: "slot \<Rightarrow> pykey \<Rightarrow> bool" where
  "occupied_other Empty key = False"
| "occupied_other (Entry k v) key = (k \<noteq> key)"

record hashmap =
  table :: "slot list"
  numkeys :: int
  cap :: int
  maxload :: rat
  hashtype :: int
  probe :: int
  collision :: int

text \<open>
  \<^verbatim>\<open>Hashmap(inittype, initsz=100, maxload=0.7)\<close>. The float \<^verbatim>\<open>maxload\<close> is modelled
  as the rational it denotes; \<^verbatim>\<open>range(initsz)\<close> is empty for a negative size.
\<close>

definition hashmap_init :: "int \<Rightarrow> int \<Rightarrow> rat \<Rightarrow> hashmap" where
  "hashmap_init inittype initsz ml =
     \<lparr>table = replicate (nat initsz) Empty, numkeys = 0, cap = initsz, maxload = ml,
      hashtype = inittype, probe = 0, collision = 0\<rparr>"

definition default_initsz :: int where
  "default_initsz = 100"

definition default_maxload :: rat where
  "default_maxload = 7 / 10"

text \<open>The start index every operation computes: \<^verbatim>\<open>hash_funcN(key) % self.cap\<close>.\<close>

definition start_index :: "native_hash \<Rightarrow> hashmap \<Rightarrow> pykey \<Rightarrow> error + int" where
  "start_index nh s key = hash_index nh (hashtype s) (cap s) key"

declare DELETED_def [py_eval] hashmap_init_def [py_eval] start_index_def [py_eval]
  default_initsz_def [py_eval] default_maxload_def [py_eval]

section \<open>What a table means\<close>

text \<open>The live entries: the \<^verbatim>\<open>Entry\<close> cells with a string key, in array order.\<close>

fun live_entries :: "slot list \<Rightarrow> (string \<times> pyval) list" where
  "live_entries [] = []"
| "live_entries (Entry (KStr k) v # t) = (k, v) # live_entries t"
| "live_entries (_ # t) = live_entries t"

definition abs_map :: "slot list \<Rightarrow> string \<rightharpoonup> pyval" where
  "abs_map tbl = map_of (live_entries tbl)"

definition used_count :: "slot list \<Rightarrow> nat" where
  "used_count tbl = count_list (map (\<lambda>sl. sl \<noteq> Empty) tbl) True"

section \<open>Well-formedness\<close>

text \<open>
  The home index of a string key: its digest under the table's strategy, modulo the
  capacity. Digests of strings never fail, so this is total.
\<close>

definition str_digest :: "native_hash \<Rightarrow> int \<Rightarrow> string \<Rightarrow> int" where
  "str_digest nh ht k = (if ht = 1 then hash_func1_loop k 0 0 else if ht = 0 then nh (KStr k)
     else hash_func2_loop k 0 0)"

definition home :: "native_hash \<Rightarrow> hashmap \<Rightarrow> string \<Rightarrow> nat" where
  "home nh s k = nat (str_digest nh (hashtype s) k mod cap s)"

text \<open>
  Shape: the array has \<^verbatim>\<open>cap\<close> cells, \<^verbatim>\<open>numkeys\<close> counts the cells that are not
  \<^verbatim>\<open>None\<close>, and the load factor is at most \<^verbatim>\<open>maxload\<close>, which lies strictly
  between 0 and 1.
\<close>

definition shape_ok :: "hashmap \<Rightarrow> bool" where
  "shape_ok s \<longleftrightarrow>
     0 < cap s \<and> length (table s) = nat (cap s) \<and>
     numkeys s = int (used_count (table s)) \<and>
     of_int (numkeys s) \<le> maxload s * of_int (cap s) \<and>
     0 < maxload s \<and> maxload s < 1"

text \<open>
  Reachability of the cell at \<open>p\<close> from the index \<open>a\<close>: every cell of the cyclic segment
  from \<open>a\<close> to \<open>p\<close> is occupied, so a linear probe from \<open>a\<close> reaches \<open>p\<close>.
\<close>

definition chain_ok :: "slot list \<Rightarrow> nat \<Rightarrow> nat \<Rightarrow> bool" where
  "chain_ok tbl a p \<longleftrightarrow>
     (\<forall>j \<in> set [0..<Suc (cdist (length tbl) a p)]. tbl ! ((a + j) mod length tbl) \<noteq> Empty)"

text \<open>Two cells hold the same live string key.\<close>

fun same_live_key :: "slot \<Rightarrow> slot \<Rightarrow> bool" where
  "same_live_key (Entry (KStr k1) v1) (Entry (KStr k2) v2) = (k1 = k2)"
| "same_live_key _ _ = False"

definition unique_keys :: "slot list \<Rightarrow> bool" where
  "unique_keys tbl \<longleftrightarrow>
     (\<forall>p \<in> set [0..<length tbl]. \<forall>q \<in> set [0..<length tbl].
        same_live_key (tbl ! p) (tbl ! q) \<longrightarrow> p = q)"

definition keys_ok :: "native_hash \<Rightarrow> hashmap \<Rightarrow> bool" where
  "keys_ok nh s \<longleftrightarrow>
     unique_keys (table s) \<and>
     (\<forall>p \<in> set [0..<length (table s)].
        case table s ! p of Entry (KStr k) v \<Rightarrow> chain_ok (table s) (home nh s k) p | _ \<Rightarrow> True)"

definition wf :: "native_hash \<Rightarrow> hashmap \<Rightarrow> bool" where
  "wf nh s \<longleftrightarrow> shape_ok s \<and> keys_ok nh s"

section \<open>A sample table\<close>

text \<open>
  A table of capacity 8 under strategy 1 in which \<^verbatim>\<open>"a"\<close> and \<^verbatim>\<open>"i"\<close> share the
  home index 1 (97 and 105 modulo 8), with a tombstone between them: the probe chain of
  \<^verbatim>\<open>"i"\<close> runs through the tombstone. The witnesses evaluate the operations on it.
\<close>

definition sample_table :: hashmap where
  "sample_table =
     \<lparr>table = [Empty, Entry (KStr ''a'') (VInt 1), DELETED, Entry (KStr ''i'') (VInt 2),
               Empty, Empty, Empty, Empty],
      numkeys = 3, cap = 8, maxload = 7 / 10, hashtype = 1, probe = 0, collision = 0\<rparr>"

text \<open>The same table with the value of \<^verbatim>\<open>"a"\<close> replaced by \<^verbatim>\<open>None\<close>.\<close>

definition none_table :: hashmap where
  "none_table = sample_table\<lparr>table := (table sample_table)[1 := Entry (KStr ''a'') VNone]\<rparr>"

declare sample_table_def [py_eval] none_table_def [py_eval]

section \<open>Basic lemmas\<close>

lemma occupied_other_iff:
  "occupied_other sl key \<longleftrightarrow> sl \<noteq> Empty \<and> (\<forall>k v. sl = Entry k v \<longrightarrow> k \<noteq> key)"
  by (cases sl) auto

lemma DELETED_not_Empty [simp]: "DELETED \<noteq> Empty"
  by (simp add: DELETED_def)

lemma digest_KStr: "digest nh ht (KStr k) = Inr (str_digest nh ht k)"
  by (simp add: digest_def str_digest_def hash_func_def)

lemma start_index_KStr:
  "0 < cap s \<Longrightarrow> start_index nh s (KStr k) = Inr (int (home nh s k))"
  by (simp add: start_index_def hash_index_def digest_KStr py_mod_def home_def)

lemma home_lt_cap: "0 < cap s \<Longrightarrow> int (home nh s k) < cap s"
  by (simp add: home_def)

lemma used_count_Nil [simp]: "used_count [] = 0"
  by (simp add: used_count_def)

lemma used_count_Cons [simp]:
  "used_count (sl # t) = (if sl = Empty then used_count t else Suc (used_count t))"
  by (simp add: used_count_def)

lemma used_count_replicate_Empty [simp]: "used_count (replicate n Empty) = 0"
  by (induction n) auto

lemma used_count_le: "used_count tbl \<le> length tbl"
  by (induction tbl) auto

lemma used_count_update:
  "i < length tbl \<Longrightarrow>
   used_count (tbl[i := v]) + (if tbl ! i \<noteq> Empty then 1 else 0) =
     used_count tbl + (if v \<noteq> Empty then 1 else 0)"
proof (induction tbl arbitrary: i)
  case Nil
  then show ?case by simp
next
  case (Cons sl t)
  show ?case
  proof (cases i)
    case 0
    then show ?thesis by simp
  next
    case (Suc j)
    with Cons.prems have "j < length t" by simp
    then have "used_count (t[j := v]) + (if t ! j \<noteq> Empty then 1 else 0) =
        used_count t + (if v \<noteq> Empty then 1 else 0)"
      by (rule Cons.IH)
    with Suc show ?thesis by (auto split: if_splits)
  qed
qed

lemma used_count_lt_length:
  "used_count tbl < length tbl \<Longrightarrow> \<exists>p < length tbl. tbl ! p = Empty"
proof (induction tbl)
  case Nil
  then show ?case by simp
next
  case (Cons sl t)
  show ?case
  proof (cases "sl = Empty")
    case True
    then show ?thesis by auto
  next
    case False
    with Cons.prems have "used_count t < length t" by simp
    with Cons.IH obtain p where "p < length t" "t ! p = Empty" by blast
    then show ?thesis by (intro exI [of _ "Suc p"]) simp
  qed
qed

lemma live_entries_append:
  "live_entries (xs @ ys) = live_entries xs @ live_entries ys"
  by (induction xs rule: live_entries.induct) auto

lemma live_entries_mem: "(k, v) \<in> set (live_entries tbl) \<longleftrightarrow> Entry (KStr k) v \<in> set tbl"
  by (induction tbl rule: live_entries.induct) auto

lemma live_entries_set:
  "(k, v) \<in> set (live_entries tbl) \<longleftrightarrow> (\<exists>p<length tbl. tbl ! p = Entry (KStr k) v)"
  unfolding live_entries_mem by (rule in_set_conv_nth)

lemma same_live_key_iff:
  "same_live_key sl1 sl2 \<longleftrightarrow> (\<exists>k v w. sl1 = Entry (KStr k) v \<and> sl2 = Entry (KStr k) w)"
  by (cases "(sl1, sl2)" rule: same_live_key.cases) auto

lemma unique_keysD:
  "unique_keys tbl \<Longrightarrow> p < length tbl \<Longrightarrow> q < length tbl \<Longrightarrow>
   tbl ! p = Entry (KStr k) v \<Longrightarrow> tbl ! q = Entry (KStr k) w \<Longrightarrow> p = q"
  by (auto simp: unique_keys_def)

lemma unique_keysI:
  "(\<And>p q k v w. p < length tbl \<Longrightarrow> q < length tbl \<Longrightarrow>
      tbl ! p = Entry (KStr k) v \<Longrightarrow> tbl ! q = Entry (KStr k) w \<Longrightarrow> p = q) \<Longrightarrow>
   unique_keys tbl"
  by (auto simp: unique_keys_def same_live_key_iff)

lemma abs_map_Some_iff:
  assumes "unique_keys tbl"
  shows "abs_map tbl k = Some v \<longleftrightarrow> (\<exists>p<length tbl. tbl ! p = Entry (KStr k) v)"
proof
  assume "abs_map tbl k = Some v"
  then have "(k, v) \<in> set (live_entries tbl)" by (simp add: abs_map_def map_of_SomeD)
  then show "\<exists>p<length tbl. tbl ! p = Entry (KStr k) v" by (simp add: live_entries_set)
next
  assume "\<exists>p<length tbl. tbl ! p = Entry (KStr k) v"
  then obtain p where p: "p < length tbl" "tbl ! p = Entry (KStr k) v" by blast
  then have "(k, v) \<in> set (live_entries tbl)" by (auto simp: live_entries_set)
  then obtain v' where v': "map_of (live_entries tbl) k = Some v'"
    by (metis map_of_eq_None_iff not_Some_eq fst_conv image_eqI)
  then have "(k, v') \<in> set (live_entries tbl)" by (rule map_of_SomeD)
  then obtain q where q: "q < length tbl" "tbl ! q = Entry (KStr k) v'" by (auto simp: live_entries_set)
  from unique_keysD [OF assms p(1) q(1) p(2) q(2)] p q have "v' = v" by simp
  with v' show "abs_map tbl k = Some v" by (simp add: abs_map_def)
qed

lemma abs_map_None_iff:
  "abs_map tbl k = None \<longleftrightarrow> (\<forall>p<length tbl. \<forall>v. tbl ! p \<noteq> Entry (KStr k) v)"
proof -
  have "abs_map tbl k = None \<longleftrightarrow> (\<forall>v. (k, v) \<notin> set (live_entries tbl))"
    by (force simp: abs_map_def map_of_eq_None_iff)
  then show ?thesis by (auto simp: live_entries_set)
qed

lemma keys_okD:
  assumes "keys_ok nh s" "p < length (table s)" "table s ! p = Entry (KStr k) v"
  shows "chain_ok (table s) (home nh s k) p"
  using assms by (force simp: keys_ok_def)

lemma keys_okI:
  assumes "unique_keys (table s)"
    and "\<And>p k v. p < length (table s) \<Longrightarrow> table s ! p = Entry (KStr k) v \<Longrightarrow>
           chain_ok (table s) (home nh s k) p"
  shows "keys_ok nh s"
  using assms unfolding keys_ok_def by (auto split: slot.splits pykey.splits)

lemma shape_ok_free_cell:
  assumes "shape_ok s"
  shows "\<exists>p < length (table s). table s ! p = Empty"
proof -
  from assms have c: "0 < cap s" and ml: "maxload s < 1"
    and nk: "of_int (numkeys s) \<le> maxload s * of_int (cap s)"
    by (auto simp: shape_ok_def)
  from c ml have "maxload s * of_int (cap s) < of_int (cap s)" by simp
  with nk have "of_int (numkeys s) < (of_int (cap s) :: rat)" by linarith
  then have "numkeys s < cap s" by simp
  with assms have "used_count (table s) < length (table s)" by (simp add: shape_ok_def)
  then show ?thesis by (rule used_count_lt_length)
qed

lemma live_entries_replicate_Empty [simp]: "live_entries (replicate n Empty) = []"
  by (induction n) auto

lemma chain_okD:
  "chain_ok tbl a p \<Longrightarrow> j \<le> cdist (length tbl) a p \<Longrightarrow> tbl ! ((a + j) mod length tbl) \<noteq> Empty"
  by (auto simp: chain_ok_def)

lemma chain_okI:
  "(\<And>j. j \<le> cdist (length tbl) a p \<Longrightarrow> tbl ! ((a + j) mod length tbl) \<noteq> Empty) \<Longrightarrow>
   chain_ok tbl a p"
  by (auto simp: chain_ok_def)


section \<open>Writing one cell\<close>

text \<open>
  How the meaning and the invariants of a table change when one cell is overwritten: the
  facts every mutating operation is built from.
\<close>

lemma nth_update_nonempty:
  assumes "xs ! j \<noteq> Empty" "x \<noteq> Empty"
  shows "xs[i := x] ! j \<noteq> Empty"
proof (cases "i = j")
  case True
  with assms show ?thesis by (cases "i < length xs") (simp_all add: list_update_beyond)
next
  case False
  with assms show ?thesis by simp
qed

lemma chain_ok_update:
  assumes "chain_ok tbl a p" "x \<noteq> Empty"
  shows "chain_ok (tbl[w := x]) a p"
proof (rule chain_okI)
  fix j assume "j \<le> cdist (length (tbl[w := x])) a p"
  with assms(1) have "tbl ! ((a + j) mod length tbl) \<noteq> Empty" by (simp add: chain_okD)
  with assms(2) show "tbl[w := x] ! ((a + j) mod length (tbl[w := x])) \<noteq> Empty"
    by (simp add: nth_update_nonempty)
qed

lemma unique_keys_update:
  assumes "unique_keys tbl" "w < length tbl"
    and "\<And>k v. x = Entry (KStr k) v \<Longrightarrow> \<forall>q<length tbl. q \<noteq> w \<longrightarrow> (\<forall>u. tbl ! q \<noteq> Entry (KStr k) u)"
  shows "unique_keys (tbl[w := x])"
proof (rule unique_keysI)
  fix p q k v u
  assume p: "p < length (tbl[w := x])" and q: "q < length (tbl[w := x])"
    and pv: "tbl[w := x] ! p = Entry (KStr k) v" and qu: "tbl[w := x] ! q = Entry (KStr k) u"
  show "p = q"
  proof (cases "p = w \<or> q = w")
    case True
    then show ?thesis
      using assms(2,3) p q pv qu by (auto simp: nth_list_update split: if_splits)
  next
    case False
    with pv qu have "tbl ! p = Entry (KStr k) v" "tbl ! q = Entry (KStr k) u" by auto
    with assms(1) p q show ?thesis by (simp add: unique_keysD)
  qed
qed

lemma abs_map_update:
  assumes u: "unique_keys tbl" "unique_keys (tbl[w := x])" and w: "w < length tbl"
  shows "abs_map (tbl[w := x]) k' =
     (case x of Entry (KStr k) v \<Rightarrow> if k = k' then Some v else
        (case tbl ! w of Entry (KStr k0) v0 \<Rightarrow> if k0 = k' then None else abs_map tbl k' | _ \<Rightarrow> abs_map tbl k')
      | _ \<Rightarrow> (case tbl ! w of Entry (KStr k0) v0 \<Rightarrow> if k0 = k' then None else abs_map tbl k'
              | _ \<Rightarrow> abs_map tbl k'))"
proof -
  have other: "(\<exists>p<length tbl. p \<noteq> w \<and> tbl ! p = Entry (KStr k') v') \<longleftrightarrow>
      (\<exists>p<length tbl. p \<noteq> w \<and> tbl[w := x] ! p = Entry (KStr k') v')" for v'
    by auto
  have new: "tbl[w := x] ! w = x" using w by simp
  have S2: "abs_map (tbl[w := x]) k' = Some v' \<longleftrightarrow>
      (x = Entry (KStr k') v' \<or> (\<exists>p<length tbl. p \<noteq> w \<and> tbl ! p = Entry (KStr k') v'))" for v'
    using abs_map_Some_iff [OF u(2)] w other by (auto simp: nth_list_update)
  have S1: "abs_map tbl k' = Some v' \<longleftrightarrow>
      (tbl ! w = Entry (KStr k') v' \<or> (\<exists>p<length tbl. p \<noteq> w \<and> tbl ! p = Entry (KStr k') v'))" for v'
    using abs_map_Some_iff [OF u(1)] w by auto
  have U1: "tbl ! w = Entry (KStr k') v0 \<Longrightarrow> p < length tbl \<Longrightarrow> p \<noteq> w \<Longrightarrow>
      tbl ! p \<noteq> Entry (KStr k') v'" for v0 p v'
    using unique_keysD [OF u(1)] w by blast
  have U2: "x = Entry (KStr k') v0 \<Longrightarrow> p < length tbl \<Longrightarrow> p \<noteq> w \<Longrightarrow>
      tbl ! p \<noteq> Entry (KStr k') v'" for v0 p v'
    using unique_keysD [OF u(2), of w p k' v0 v'] w new by (auto simp: nth_list_update)
  show ?thesis
  proof (cases "abs_map (tbl[w := x]) k'")
    case None
    then have "\<forall>v'. \<not> (x = Entry (KStr k') v' \<or> (\<exists>p<length tbl. p \<noteq> w \<and> tbl ! p = Entry (KStr k') v'))"
      using S2 by (metis option.distinct(1))
    then show ?thesis using None S1
      by (auto split: slot.splits pykey.splits option.splits) (metis option.exhaust)+
  next
    case (Some v')
    with S2 have "x = Entry (KStr k') v' \<or> (\<exists>p<length tbl. p \<noteq> w \<and> tbl ! p = Entry (KStr k') v')"
      by blast
    then show ?thesis using Some S1 U1 U2
      by (auto split: slot.splits pykey.splits) (metis S1)+
  qed
qed


lemma home_table_update [simp]: "home nh (s\<lparr>table := t\<rparr>) k = home nh s k"
  by (simp add: home_def)

lemma keys_ok_write:
  assumes ks: "keys_ok nh s" and w: "w < length (table s)" and x: "x \<noteq> Empty"
    and new: "\<And>k v. x = Entry (KStr k) v \<Longrightarrow>
       (\<forall>q<length (table s). q \<noteq> w \<longrightarrow> (\<forall>u. table s ! q \<noteq> Entry (KStr k) u)) \<and>
       chain_ok ((table s)[w := x]) (home nh s k) w"
  shows "keys_ok nh (s\<lparr>table := (table s)[w := x]\<rparr>)"
proof (rule keys_okI)
  have "unique_keys (table s)" using ks by (simp add: keys_ok_def)
  then show "unique_keys (table (s\<lparr>table := (table s)[w := x]\<rparr>))"
    using w new by (simp add: unique_keys_update)
next
  fix p k v
  assume p: "p < length (table (s\<lparr>table := (table s)[w := x]\<rparr>))"
    and pv: "table (s\<lparr>table := (table s)[w := x]\<rparr>) ! p = Entry (KStr k) v"
  show "chain_ok (table (s\<lparr>table := (table s)[w := x]\<rparr>)) (home nh (s\<lparr>table := (table s)[w := x]\<rparr>) k) p"
  proof (cases "p = w")
    case True
    with pv w have "x = Entry (KStr k) v" by simp
    with new True show ?thesis by simp
  next
    case False
    with pv have "table s ! p = Entry (KStr k) v" by simp
    with ks p have "chain_ok (table s) (home nh s k) p" by (simp add: keys_okD)
    with x show ?thesis by (simp add: chain_ok_update)
  qed
qed


lemmas wf_eval = wf_def shape_ok_def keys_ok_def unique_keys_def chain_ok_def home_def
  str_digest_def cdist_def upt_rec

lemma sample_table_wf: "wf (\<lambda>_. 0) sample_table"
  by (simp add: wf_eval py_eval)


lemma keys_ok_cong:
  "table s' = table s \<Longrightarrow> hashtype s' = hashtype s \<Longrightarrow> cap s' = cap s \<Longrightarrow>
   keys_ok nh s' = keys_ok nh s"
  by (simp add: keys_ok_def home_def cong: slot.case_cong pykey.case_cong)

lemma wf_cong:
  "table s' = table s \<Longrightarrow> hashtype s' = hashtype s \<Longrightarrow> cap s' = cap s \<Longrightarrow>
   numkeys s' = numkeys s \<Longrightarrow> maxload s' = maxload s \<Longrightarrow> wf nh s' = wf nh s"
  using keys_ok_cong [of s' s nh] by (simp add: wf_def shape_ok_def)

end
