(* ===== verification/Probe.thy ===== *)
theory Probe
  imports Hashmap_State
begin

text \<open>
  The three probe loops of \<^verbatim>\<open>src/hashmap.py\<close>, each as the code writes it:
  \<^item> \<open>probe_find\<close>, the linear scan shared by \<^verbatim>\<open>get\<close>,
    \<^verbatim>\<open>contains\<close> and \<^verbatim>\<open>remove\<close> (lines 108--111, 127--130, 148--151): it
    steps one cell at a time, wraps at its bound, and stops at \<^verbatim>\<open>None\<close> or at the key;
  \<^item> \<open>put_probe\<close>, the scan of \<^verbatim>\<open>put\<close> (lines 65--74): after stepping (and
    wrapping) it steps once more, without wrapping, whenever the next cell is occupied, and
    it records the first tombstone it inspects;
  \<^item> \<open>incr_loop\<close>, the scan of \<^verbatim>\<open>put\<close> for a key that is already present
    (lines 56--60), which never wraps.
  The first two loops need not end (on a table with no \<^verbatim>\<open>None\<close> cell), so they are
  \<^theory_text>\<open>partial_function (option)\<close>: \<open>None\<close> is "runs forever". The third is
  bounded by the capacity. The lemmas characterise where each loop stops and when it
  returns at all.
\<close>

section \<open>The loops\<close>

partial_function (option) probe_find :: "slot list \<Rightarrow> pykey \<Rightarrow> int \<Rightarrow> int \<Rightarrow> int pyres" where
  "probe_find tbl key wrap index =
     (case py_nth tbl index of
        Inl e \<Rightarrow> Some (Inl e)
      | Inr sl \<Rightarrow>
          if occupied_other sl key
          then probe_find tbl key wrap (if index + 1 = wrap then 0 else index + 1)
          else Some (Inr index))"

partial_function (option) put_probe ::
  "slot list \<Rightarrow> pykey \<Rightarrow> int \<Rightarrow> int option \<Rightarrow> int \<Rightarrow> (int \<times> int option \<times> int) pyres" where
  "put_probe tbl key index firstDeleted pr =
     (case py_nth tbl index of
        Inl e \<Rightarrow> Some (Inl e)
      | Inr sl \<Rightarrow>
          if occupied_other sl key then
            (let fd = (if sl = DELETED \<and> firstDeleted = None then Some index else firstDeleted);
                 i1 = (if index + 1 = int (length tbl) then 0 else index + 1)
             in case py_nth tbl i1 of
                  Inl e \<Rightarrow> Some (Inl e)
                | Inr sl1 \<Rightarrow>
                    if sl1 \<noteq> Empty then put_probe tbl key (i1 + 1) fd (pr + 1)
                    else put_probe tbl key i1 fd pr)
          else Some (Inr (index, firstDeleted, pr)))"

text \<open>
  The increment scan either writes the incremented entry and returns from \<^verbatim>\<open>put\<close>
  (\<open>IncrDone\<close>), or leaves its loop with \<^verbatim>\<open>index == self.cap\<close> and falls
  through to the main scan (\<open>IncrFall\<close>).
\<close>

datatype incr_result = IncrDone "slot list" | IncrFall int

function incr_loop :: "slot list \<Rightarrow> pykey \<Rightarrow> pyval \<Rightarrow> int \<Rightarrow> int \<Rightarrow> error + incr_result" where
  "incr_loop tbl key value c index =
     (if index < c then
        (case py_nth tbl index of
           Inl e \<Rightarrow> Inl e
         | Inr Empty \<Rightarrow> Inl AttributeError
         | Inr (Entry k v) \<Rightarrow>
             if k = key
             then (case py_set tbl index (Entry key value) of
                     Inl e \<Rightarrow> Inl e
                   | Inr t \<Rightarrow> Inr (IncrDone t))
             else incr_loop tbl key value c (index + 1))
      else Inr (IncrFall index))"
  by pat_completeness auto
termination
  by (relation "measure (\<lambda>(tbl, key, value, c, index). nat (c - index))") auto

declare incr_loop.simps [simp del]

declare probe_find.simps [code, py_eval] put_probe.simps [code, py_eval]
  incr_loop.simps [py_eval]

section \<open>Where the scans stop\<close>

text \<open>
  Positions are counted from the start index \<open>a\<close>: the cell \<open>j\<close> steps on is
  \<open>(a + j) mod n\<close>. \<open>fd_ok\<close> says that a recorded first tombstone lies among the
  first \<open>j\<close> cells; \<open>scan_ok\<close> is what the scan of \<^verbatim>\<open>put\<close> guarantees when it
  returns: either \<^verbatim>\<open>IndexError\<close>, or a stop cell at a distance \<open>j'\<close> no greater than
  that of a known free cell \<open>E\<close>, every cell before it occupied, that is free or holds the
  key.
\<close>

definition fd_ok :: "slot list \<Rightarrow> nat \<Rightarrow> nat \<Rightarrow> int option \<Rightarrow> bool" where
  "fd_ok tbl a j fd \<longleftrightarrow>
     (case fd of None \<Rightarrow> True
      | Some f \<Rightarrow> \<exists>e<j. f = int ((a + e) mod length tbl) \<and> tbl ! ((a + e) mod length tbl) = DELETED)"

lemma mod_step_int:
  "a < n \<Longrightarrow> (if int a + 1 = int n then 0 else int a + 1) = int (Suc a mod n)"
  by (cases "Suc a = n") auto

lemma mod_shift: "(Suc m mod n + e) mod n = (m + Suc e) mod n"
  by (simp add: mod_add_left_eq)

lemma fd_ok_mono: "fd_ok tbl a j fd \<Longrightarrow> j \<le> j' \<Longrightarrow> fd_ok tbl a j' fd"
  by (cases fd) (force simp: fd_ok_def)+

text \<open>The linear scan stops at the first cell that is free or holds the key.\<close>

lemma probe_find_stops:
  assumes "0 < length tbl" "a < length tbl"
    and "\<forall>e<d. occupied_other (tbl ! ((a + e) mod length tbl)) key"
    and "\<not> occupied_other (tbl ! ((a + d) mod length tbl)) key"
  shows "probe_find tbl key (int (length tbl)) (int a) = Some (Inr (int ((a + d) mod length tbl)))"
  using assms
proof (induction d arbitrary: a)
  case 0
  then show ?case by (subst probe_find.simps) simp
next
  case (Suc d)
  let ?n = "length tbl"
  from Suc.prems(3) [rule_format, of 0] Suc.prems(2) have occ: "occupied_other (tbl ! a) key"
    by simp
  have a': "Suc a mod ?n < ?n" using Suc.prems(1) by simp
  have "\<forall>e<d. occupied_other (tbl ! ((Suc a mod ?n + e) mod ?n)) key"
  proof (intro allI impI)
    fix e assume "e < d"
    with Suc.prems(3) have "occupied_other (tbl ! ((a + Suc e) mod ?n)) key" by blast
    then show "occupied_other (tbl ! ((Suc a mod ?n + e) mod ?n)) key" by (simp only: mod_shift)
  qed
  moreover have "\<not> occupied_other (tbl ! ((Suc a mod ?n + d) mod ?n)) key"
    using Suc.prems(4) by (simp add: mod_shift)
  ultimately have IH: "probe_find tbl key (int ?n) (int (Suc a mod ?n)) =
      Some (Inr (int ((Suc a mod ?n + d) mod ?n)))"
    using Suc.IH Suc.prems(1) a' by blast
  have step: "(if int a + 1 = int ?n then 0 else int a + 1) = int (Suc a mod ?n)"
    using Suc.prems(2) by (rule mod_step_int)
  show ?case
    by (subst probe_find.simps) (simp add: Suc.prems(2) occ step IH mod_shift)
qed

lemma first_stop:
  assumes "\<not> P (E::nat)"
  shows "\<exists>d\<le>E. (\<forall>e<d. P e) \<and> \<not> P d"
  using ex_least_nat_le [of "\<lambda>d. \<not> P d" E] assms by auto

lemma probe_find_returns:
  assumes "0 < length tbl" "a < length tbl" "p < length tbl" "tbl ! p = Empty"
  shows "\<exists>d<length tbl. (\<forall>e<d. occupied_other (tbl ! ((a + e) mod length tbl)) key) \<and>
           \<not> occupied_other (tbl ! ((a + d) mod length tbl)) key \<and>
           probe_find tbl key (int (length tbl)) (int a) = Some (Inr (int ((a + d) mod length tbl)))"
proof -
  let ?n = "length tbl"
  let ?P = "\<lambda>d. occupied_other (tbl ! ((a + d) mod ?n)) key"
  have "(a + cdist ?n a p) mod ?n = p" using assms by (simp add: cdist_mod)
  with assms(4) have "\<not> ?P (cdist ?n a p)" by simp
  then obtain d where d: "d \<le> cdist ?n a p" "\<forall>e<d. ?P e" "\<not> ?P d"
    using first_stop [of ?P] by blast
  moreover have "d < ?n" using d(1) cdist_lt [OF assms(2,3)] by simp
  ultimately show ?thesis using probe_find_stops [OF assms(1,2)] by blast
qed

definition scan_ok ::
  "slot list \<Rightarrow> pykey \<Rightarrow> nat \<Rightarrow> nat \<Rightarrow> nat \<Rightarrow> int \<Rightarrow> error + int \<times> int option \<times> int \<Rightarrow> bool" where
  "scan_ok tbl key a E j pr r \<longleftrightarrow>
     (case r of
        Inl err \<Rightarrow> err = IndexError
      | Inr (i', fd', pr') \<Rightarrow>
          \<exists>j'. j \<le> j' \<and> j' \<le> E \<and> i' = int ((a + j') mod length tbl) \<and>
            (\<forall>e<j'. tbl ! ((a + e) mod length tbl) \<noteq> Empty) \<and>
            \<not> occupied_other (tbl ! ((a + j') mod length tbl)) key \<and>
            fd_ok tbl a j' fd' \<and> pr \<le> pr')"

lemma scan_ok_mono:
  "scan_ok tbl key a E j' pr' r \<Longrightarrow> j \<le> j' \<Longrightarrow> pr \<le> pr' \<Longrightarrow> scan_ok tbl key a E j pr r"
proof (cases r)
  case (Inr x)
  moreover assume "scan_ok tbl key a E j' pr' r" "j \<le> j'" "pr \<le> pr'"
  ultimately show ?thesis
    unfolding scan_ok_def by (cases x) (auto intro: order_trans)
qed (simp add: scan_ok_def)

lemma nonempty_Suc:
  "\<forall>e<j. tbl ! ((a + e) mod n) \<noteq> Empty \<Longrightarrow> tbl ! ((a + j) mod n) \<noteq> Empty \<Longrightarrow>
   \<forall>e<Suc j. tbl ! ((a + e) mod n) \<noteq> Empty"
  using less_Suc_eq by auto

text \<open>
  One iteration of the scan of \<^verbatim>\<open>put\<close> on an occupied cell, and the scan as a whole:
  it never passes a free cell, so when it does not raise it stops no later than the first
  free cell it can reach.
\<close>

lemma put_probe_step:
  assumes "0 \<le> i" "i < int (length tbl)" "occupied_other (tbl ! nat i) key"
  shows "put_probe tbl key i fd pr =
    (let fd1 = (if tbl ! nat i = DELETED \<and> fd = None then Some i else fd);
         i1 = (if i + 1 = int (length tbl) then 0 else i + 1)
     in if tbl ! nat i1 \<noteq> Empty then put_probe tbl key (i1 + 1) fd1 (pr + 1)
        else put_probe tbl key i1 fd1 pr)"
proof -
  define i1 where "i1 = (if i + 1 = int (length tbl) then 0 else i + 1)"
  have i1: "0 \<le> i1" "i1 < int (length tbl)" using assms unfolding i1_def by auto
  have n: "py_nth tbl i = Inr (tbl ! nat i)" using assms by simp
  have n1: "py_nth tbl i1 = Inr (tbl ! nat i1)" using i1 by simp
  show ?thesis
    unfolding i1_def [symmetric] by (subst put_probe.simps) (simp add: n n1 assms(3) Let_def i1_def [symmetric])
qed


lemma put_probe_scan:
  assumes n: "0 < length tbl" "a < length tbl"
    and E: "tbl ! ((a + E) mod length tbl) = Empty"
    and j: "j \<le> E" "\<forall>e<j. tbl ! ((a + e) mod length tbl) \<noteq> Empty"
    and fd: "fd_ok tbl a j fd"
  shows "\<exists>r. put_probe tbl key (int ((a + j) mod length tbl)) fd pr = Some r \<and>
           scan_ok tbl key a E j pr r"
  using j fd
proof (induction "E - j" arbitrary: j fd pr rule: less_induct)
  case less
  let ?n = "length tbl"
  let ?i = "(a + j) mod ?n"
  let ?i1 = "(a + Suc j) mod ?n"
  have i_lt: "?i < ?n" using n by simp
  show ?case
  proof (cases "occupied_other (tbl ! ?i) key")
    case False
    have "put_probe tbl key (int ?i) fd pr = Some (Inr (int ?i, fd, pr))"
      using False i_lt by (subst put_probe.simps) simp
    moreover have "scan_ok tbl key a E j pr (Inr (int ?i, fd, pr))"
      using False less.prems unfolding scan_ok_def by auto
    ultimately show ?thesis by blast
  next
    case True
    then have ne: "tbl ! ?i \<noteq> Empty" by (cases "tbl ! ?i") auto
    with E less.prems(1) have jE: "j < E" by (cases "j = E") auto
    define fd1 where "fd1 = (if tbl ! ?i = DELETED \<and> fd = None then Some (int ?i) else fd)"
    have fd1: "fd_ok tbl a (Suc j) fd1"
      using less.prems(3) fd_ok_mono [OF less.prems(3), of "Suc j"]
      unfolding fd1_def by (auto simp: fd_ok_def)
    have ne1: "\<forall>e<Suc j. tbl ! ((a + e) mod ?n) \<noteq> Empty"
      using less.prems(2) ne by (rule nonempty_Suc)
    have step: "(if int ?i + 1 = int ?n then 0 else int ?i + 1) = int ?i1"
      using mod_step_int [OF i_lt] by (simp add: mod_Suc_eq)
    have unfold: "put_probe tbl key (int ?i) fd pr =
        (if tbl ! ?i1 \<noteq> Empty then put_probe tbl key (int ?i1 + 1) fd1 (pr + 1)
         else put_probe tbl key (int ?i1) fd1 pr)"
      using put_probe_step [of "int ?i" tbl key fd pr] True i_lt
      unfolding step by (simp add: fd1_def Let_def)
    show ?thesis
    proof (cases "tbl ! ?i1 = Empty")
      case True
      have "E - Suc j < E - j" using jE by simp
      then obtain r where r: "put_probe tbl key (int ?i1) fd1 pr = Some r"
          "scan_ok tbl key a E (Suc j) pr r"
        using less.hyps [of "Suc j" fd1 pr] jE ne1 fd1 by auto
      have "put_probe tbl key (int ?i) fd pr = Some r"
        using unfold True r(1) n by simp
      moreover have "scan_ok tbl key a E j pr r"
        using scan_ok_mono [OF r(2), of j pr] by simp
      ultimately show ?thesis by blast
    next
      case False
      with E have "Suc j \<noteq> E" by auto
      with jE have jE2: "Suc (Suc j) \<le> E" by simp
      show ?thesis
      proof (cases "Suc ?i1 = ?n")
        case True
        then have "put_probe tbl key (int ?i1 + 1) fd1 (pr + 1) = Some (Inl IndexError)"
          by (subst put_probe.simps) simp
        then have "put_probe tbl key (int ?i) fd pr = Some (Inl IndexError)"
          using unfold False n by simp
        then show ?thesis by (simp add: scan_ok_def)
      next
        case False2: False
        have i2: "int ?i1 + 1 = int ((a + Suc (Suc j)) mod ?n)"
          using False2 by (simp add: mod_Suc)
        have ne2: "\<forall>e<Suc (Suc j). tbl ! ((a + e) mod ?n) \<noteq> Empty"
          using ne1 False by (rule nonempty_Suc)
        have "E - Suc (Suc j) < E - j" using jE2 by simp
        then obtain r where r: "put_probe tbl key (int ((a + Suc (Suc j)) mod ?n)) fd1 (pr + 1) = Some r"
            "scan_ok tbl key a E (Suc (Suc j)) (pr + 1) r"
          using less.hyps [of "Suc (Suc j)" fd1 "pr + 1"] jE2 ne2 fd_ok_mono [OF fd1, of "Suc (Suc j)"]
          by auto
        have "put_probe tbl key (int ?i) fd pr = Some r"
          using unfold False r(1) i2 n by simp
        moreover have "scan_ok tbl key a E j pr r"
          using scan_ok_mono [OF r(2), of j pr] by simp
        ultimately show ?thesis by blast
      qed
    qed
  qed
qed


text \<open>
  The increment scan finds the key if it lies at or after the start index, and otherwise
  leaves its loop at the capacity.
\<close>

lemma incr_loop_found:
  assumes "a \<le> p" "p < length tbl"
    and "\<forall>q. a \<le> q \<and> q < p \<longrightarrow> occupied_other (tbl ! q) key"
    and "tbl ! p = Entry key v"
  shows "incr_loop tbl key value (int (length tbl)) (int a) = Inr (IncrDone (tbl[p := Entry key value]))"
  using assms
proof (induction "p - a" arbitrary: a)
  case 0
  then have "a = p" by simp
  with "0.prems" show ?case by (subst incr_loop.simps) simp
next
  case (Suc d)
  then have ap: "a < p" by simp
  with Suc.prems(2,3) have occ: "occupied_other (tbl ! a) key" by auto
  then obtain k w where kw: "tbl ! a = Entry k w" "k \<noteq> key" by (cases "tbl ! a") auto
  have "incr_loop tbl key value (int (length tbl)) (int (Suc a)) = Inr (IncrDone (tbl[p := Entry key value]))"
    using Suc.hyps(1) [of "Suc a"] Suc.hyps(2) Suc.prems ap by simp
  then show ?case
    using ap Suc.prems(2) kw by (subst incr_loop.simps) (simp add: add.commute)
qed

lemma incr_loop_falls:
  assumes "a \<le> length tbl"
    and "\<forall>q. a \<le> q \<and> q < length tbl \<longrightarrow> occupied_other (tbl ! q) key"
  shows "incr_loop tbl key value (int (length tbl)) (int a) = Inr (IncrFall (int (length tbl)))"
  using assms
proof (induction "length tbl - a" arbitrary: a)
  case 0
  then have "a = length tbl" by simp
  then show ?case by (subst incr_loop.simps) simp
next
  case (Suc d)
  then have an: "a < length tbl" by simp
  with Suc.prems(2) have occ: "occupied_other (tbl ! a) key" by auto
  then obtain k w where kw: "tbl ! a = Entry k w" "k \<noteq> key" by (cases "tbl ! a") auto
  have "incr_loop tbl key value (int (length tbl)) (int (Suc a)) = Inr (IncrFall (int (length tbl)))"
    using Suc.hyps(1) [of "Suc a"] Suc.hyps(2) Suc.prems an by simp
  then show ?case
    using an kw by (subst incr_loop.simps) (simp add: add.commute)
qed

end
