(* ===== verification/Hashmap_Ops.thy ===== *)
theory Hashmap_Ops
  imports Probe
begin

text \<open>
  The methods of \<^verbatim>\<open>Hashmap\<close> (\<^verbatim>\<open>src/hashmap.py\<close> lines 37--152):
  \<^verbatim>\<open>get\<close>, \<^verbatim>\<open>contains\<close>, \<^verbatim>\<open>remove\<close> and \<^verbatim>\<open>put\<close>. Each
  takes the native hash (the value of Python's \<^verbatim>\<open>hash\<close>, used when
  \<^verbatim>\<open>hashtype == 0\<close>) and the object's state, and returns a \<open>pyres\<close>: the
  exception it raises, its result, or \<open>None\<close> when it never returns. \<^verbatim>\<open>put\<close> is
  split the way its body reads: the prelude up to the collision test (lines 43--63), the
  main scan (\<open>put_probe\<close>), the placement and write (lines 76--82), the load test
  (line 83) and the rehash (lines 86--94), whose \<^verbatim>\<open>for\<close> loop calls \<^verbatim>\<open>put\<close>
  again, so that \<^verbatim>\<open>put\<close> is defined by recursion through \<open>reinsert\<close>.
\<close>

section \<open>Lookups and removal\<close>

definition get :: "native_hash \<Rightarrow> hashmap \<Rightarrow> pykey \<Rightarrow> pyval pyres" where
  "get nh s key =
     pbind (Some (start_index nh s key)) (\<lambda>index.
     pbind (probe_find (table s) key (cap s) index) (\<lambda>index.
     Some (sbind (py_nth (table s) index) (\<lambda>sl.
       case sl of Empty \<Rightarrow> Inl KeyError | Entry k v \<Rightarrow> Inr v))))"

definition contains :: "native_hash \<Rightarrow> hashmap \<Rightarrow> pykey \<Rightarrow> bool pyres" where
  "contains nh s key =
     pbind (Some (start_index nh s key)) (\<lambda>index.
     pbind (probe_find (table s) key (cap s) index) (\<lambda>index.
     Some (sbind (py_nth (table s) index) (\<lambda>sl. Inr (sl \<noteq> Empty)))))"

definition remove :: "native_hash \<Rightarrow> hashmap \<Rightarrow> pykey \<Rightarrow> hashmap pyres" where
  "remove nh s key =
     pbind (Some (start_index nh s key)) (\<lambda>index.
     pbind (probe_find (table s) key (int (length (table s))) index) (\<lambda>index.
     Some (sbind (py_nth (table s) index) (\<lambda>sl.
       if sl \<noteq> Empty then sbind (py_set (table s) index DELETED) (\<lambda>t. Inr (s\<lparr>table := t\<rparr>))
       else Inr s))))"

section \<open>Insertion\<close>

definition put_prelude ::
  "native_hash \<Rightarrow> hashmap \<Rightarrow> pykey \<Rightarrow> pyval \<Rightarrow> (hashmap + hashmap \<times> int \<times> pyval) pyres" where
  "put_prelude nh s key value =
     pbind (Some (start_index nh s key)) (\<lambda>index.
     pbind (Some (py_nth (table s) index)) (\<lambda>sl.
     if sl \<noteq> Empty then
       (let s1 = s\<lparr>probe := probe s + 1\<rparr> in
        pbind (contains nh s1 key) (\<lambda>found.
        if found then
          pbind (get nh s1 key) (\<lambda>old.
          pbind (Some (py_add1 old)) (\<lambda>value1.
          pbind (Some (incr_loop (table s1) key value1 (cap s1) index)) (\<lambda>ir.
          case ir of
            IncrDone t \<Rightarrow> Some (Inr (Inl (s1\<lparr>table := t\<rparr>)))
          | IncrFall index1 \<Rightarrow> Some (Inr (Inr (s1, index1, value1))))))
        else Some (Inr (Inr (s1\<lparr>collision := collision s1 + 1\<rparr>, index, value)))))
     else Some (Inr (Inr (s, index, value)))))"

definition put_write :: "hashmap \<Rightarrow> int \<Rightarrow> pykey \<Rightarrow> pyval \<Rightarrow> error + hashmap" where
  "put_write s index key value =
     sbind (py_set (table s) index (Entry key value)) (\<lambda>t. Inr (s\<lparr>table := t\<rparr>))"

definition put_place :: "hashmap \<Rightarrow> pykey \<Rightarrow> pyval \<Rightarrow> int \<Rightarrow> int option \<Rightarrow> error + hashmap" where
  "put_place s key value index firstDeleted =
     sbind (py_nth (table s) index) (\<lambda>sl.
       if firstDeleted \<noteq> None \<and> (sl = Empty \<or> occupied_other sl key)
       then put_write s (the firstDeleted) key value
       else if sl = Empty then put_write (s\<lparr>numkeys := numkeys s + 1\<rparr>) index key value
       else put_write s index key value)"

definition py_truediv :: "int \<Rightarrow> int \<Rightarrow> error + rat" where
  "py_truediv a b = (if b = 0 then Inl ZeroDivisionError else Inr (of_int a / of_int b))"

definition grow :: "hashmap \<Rightarrow> hashmap" where
  "grow s = s\<lparr>cap := cap s * 2, table := replicate (nat (cap s * 2)) Empty, numkeys := 0\<rparr>"

text \<open>
  \<^verbatim>\<open>for entry in oldtable: if entry is not None: self.put(entry[0], entry[1])\<close>,
  over any \<^verbatim>\<open>put\<close>. The loop reinserts every cell that is not \<^verbatim>\<open>None\<close>,
  tombstones included.
\<close>

primrec reinsert ::
  "(hashmap \<Rightarrow> pykey \<Rightarrow> pyval \<Rightarrow> hashmap pyres) \<Rightarrow> slot list \<Rightarrow> hashmap \<Rightarrow> hashmap pyres" where
  "reinsert p [] s = Some (Inr s)"
| "reinsert p (entry # rest) s =
     (case entry of
        Empty \<Rightarrow> reinsert p rest s
      | Entry k v \<Rightarrow> pbind (p s k v) (\<lambda>s'. reinsert p rest s'))"

lemma reinsert_mono [partial_function_mono]:
  assumes "\<And>s k v. mono_option (\<lambda>f. C f s k v)"
  shows "mono_option (\<lambda>f. reinsert (C f) es s)"
proof (induction es arbitrary: s)
  case Nil
  then show ?case by (simp add: option.const_mono)
next
  case (Cons e es)
  show ?case
    by (cases e) (simp_all add: Cons pbind_mono assms)
qed

partial_function (option) put :: "native_hash \<Rightarrow> hashmap \<Rightarrow> pykey \<Rightarrow> pyval \<Rightarrow> hashmap pyres" where
  "put nh s key value =
     pbind (put_prelude nh s key value) (\<lambda>r.
       case r of
         Inl s_done \<Rightarrow> Some (Inr s_done)
       | Inr (s1, index, value1) \<Rightarrow>
           pbind (put_probe (table s1) key index None (probe s1)) (\<lambda>(index', firstDeleted, pr).
           pbind (Some (put_place (s1\<lparr>probe := pr\<rparr>) key value1 index' firstDeleted)) (\<lambda>s2.
           pbind (Some (py_truediv (numkeys s2) (cap s2))) (\<lambda>load.
             if load > maxload s2
             then reinsert (\<lambda>s k v. put nh s k v) (table s2) (grow s2)
             else Some (Inr s2)))))"

declare probe_find.simps [code] put_probe.simps [code] put.simps [code]

declare put.simps [code]
declare get_def [py_eval] contains_def [py_eval] remove_def [py_eval] put_prelude_def [py_eval]
  put_write_def [py_eval] put_place_def [py_eval] py_truediv_def [py_eval] grow_def [py_eval]
  put.simps [py_eval]

end
