(* ===== verification/Hashmap_Lookup.thy ===== *)
theory Hashmap_Lookup
  imports Hashmap_Ops
begin

text \<open>
  Correctness of the read side and of deletion on well-formed tables: the linear scan of
  \<^verbatim>\<open>get\<close>, \<^verbatim>\<open>contains\<close> and \<^verbatim>\<open>remove\<close> always returns, and it stops at the
  cell of the key exactly when the abstract map holds the key, and at a free cell
  otherwise. From this, \<open>get\<close> and \<open>contains\<close> compute the abstract lookup and
  \<open>remove\<close> refines deletion from the map, keeping \<open>wf\<close>.
\<close>

section \<open>Shape facts\<close>

lemma shape_ok_len:
  "shape_ok s \<Longrightarrow> int (length (table s)) = cap s"
  by (simp add: shape_ok_def)

lemma shape_ok_len_pos:
  "shape_ok s \<Longrightarrow> 0 < length (table s)"
  by (simp add: shape_ok_def)

lemma home_lt_length:
  "shape_ok s \<Longrightarrow> home nh s k < length (table s)"
  using home_lt_cap [of s nh k] by (simp add: shape_ok_def)

lemma wf_start_index:
  "wf nh s \<Longrightarrow> start_index nh s (KStr k) = Inr (int (home nh s k))"
  by (simp add: wf_def shape_ok_def start_index_KStr)

section \<open>The linear scan on a well-formed table\<close>

text \<open>
  On the chain from the home index to the key's cell every cell is occupied and holds
  another key, by reachability and uniqueness.
\<close>

lemma chain_cells_other:
  assumes ks: "keys_ok nh s" and n: "0 < length (table s)"
    and a: "a = home nh s k" "a < length (table s)"
    and p: "p < length (table s)" "table s ! p = Entry (KStr k) v"
    and e: "e < cdist (length (table s)) a p"
  shows "occupied_other (table s ! ((a + e) mod length (table s))) (KStr k)"
proof -
  let ?n = "length (table s)" and ?c = "(a + e) mod length (table s)"
  have chain: "chain_ok (table s) a p" using keys_okD [OF ks p] a by simp
  have ne: "table s ! ?c \<noteq> Empty" using chain_okD [OF chain] e by simp
  have e_lt: "e < ?n" using e cdist_lt [OF a(2) p(1)] by simp
  have "\<forall>u. table s ! ?c \<noteq> Entry (KStr k) u"
  proof (intro allI notI)
    fix u assume "table s ! ?c = Entry (KStr k) u"
    with ks p n have "?c = p" by (auto simp: keys_ok_def intro: unique_keysD)
    then have "cdist ?n a p = e" using cdist_of_mod [OF a(2) e_lt] by simp
    with e show False by simp
  qed
  with ne show ?thesis by (cases "table s ! ?c") auto
qed

lemma probe_find_wf:
  assumes "wf nh s"
  shows "\<exists>i<length (table s).
     probe_find (table s) (KStr k) (cap s) (int (home nh s k)) = Some (Inr (int i)) \<and>
     (case abs_map (table s) k of
        None \<Rightarrow> table s ! i = Empty
      | Some v \<Rightarrow> table s ! i = Entry (KStr k) v)"
proof -
  let ?t = "table s" and ?a = "home nh s k"
  let ?n = "length ?t"
  have sh: "shape_ok s" and ks: "keys_ok nh s" using assms by (auto simp: wf_def)
  have n: "0 < ?n" and a: "?a < ?n" and len: "int ?n = cap s"
    using shape_ok_len_pos [OF sh] home_lt_length [OF sh] shape_ok_len [OF sh] by auto
  have uk: "unique_keys ?t" using ks by (simp add: keys_ok_def)
  show ?thesis
  proof (cases "abs_map ?t k")
    case None
    obtain p where p: "p < ?n" "?t ! p = Empty" using shape_ok_free_cell [OF sh] by blast
    obtain d where d: "d < ?n" "\<not> occupied_other (?t ! ((?a + d) mod ?n)) (KStr k)"
        "probe_find ?t (KStr k) (int ?n) (int ?a) = Some (Inr (int ((?a + d) mod ?n)))"
      using probe_find_returns [OF n a p] by blast
    have c: "(?a + d) mod ?n < ?n" using n by simp
    have "?t ! ((?a + d) mod ?n) = Empty"
    proof (cases "?t ! ((?a + d) mod ?n)")
      case (Entry k' u)
      with d(2) have "k' = KStr k" by simp
      with Entry c None show ?thesis by (auto simp: abs_map_None_iff)
    qed simp
    with d(3) None n len show ?thesis by (intro exI [of _ "(?a + d) mod ?n"]) simp
  next
    case (Some v)
    then obtain p where p: "p < ?n" "?t ! p = Entry (KStr k) v"
      using abs_map_Some_iff [OF uk] by blast
    let ?d = "cdist ?n ?a p"
    have "\<forall>e<?d. occupied_other (?t ! ((?a + e) mod ?n)) (KStr k)"
      using chain_cells_other [OF ks n refl a p] by blast
    moreover have at: "(?a + ?d) mod ?n = p" using cdist_mod [OF a p(1)] .
    moreover have "\<not> occupied_other (?t ! p) (KStr k)" using p by simp
    ultimately have "probe_find ?t (KStr k) (int ?n) (int ?a) = Some (Inr (int p))"
      using probe_find_stops [OF n a, of ?d "KStr k"] by simp
    with p Some len show ?thesis by (intro exI [of _ p]) simp
  qed
qed

section \<open>Lookup\<close>

lemma get_abs:
  assumes "wf nh s"
  shows "get nh s (KStr k) =
    Some (case abs_map (table s) k of None \<Rightarrow> Inl KeyError | Some v \<Rightarrow> Inr v)"
proof -
  obtain i where i: "i < length (table s)"
      "probe_find (table s) (KStr k) (cap s) (int (home nh s k)) = Some (Inr (int i))"
      "case abs_map (table s) k of None \<Rightarrow> table s ! i = Empty
         | Some v \<Rightarrow> table s ! i = Entry (KStr k) v"
    using probe_find_wf [OF assms] by blast
  then show ?thesis
    using assms by (simp add: get_def wf_start_index split: option.splits)
qed

text \<open>
  Claim C3: on a well-formed table, \<^verbatim>\<open>get\<close> returns, and it returns the value the
  abstract map binds to the key, or raises \<^verbatim>\<open>KeyError\<close> when the map does not hold the
  key.
\<close>

theorem get_correct:
  assumes "wf nh s"
  shows "get nh s (KStr k) =
    Some (case abs_map (table s) k of None \<Rightarrow> Inl KeyError | Some v \<Rightarrow> Inr v)"
  using get_abs [OF assms] .

theorem get_correct_witness:
  "wf (\<lambda>_. 0) sample_table \<and> get (\<lambda>_. 0) sample_table (KStr ''i'') = Some (Inr (VInt 2))"
  using sample_table_wf get_correct [OF sample_table_wf, of "''i''"]
  by (simp add: abs_map_def py_eval)

text \<open>
  Claim C5: on a well-formed table, \<^verbatim>\<open>contains\<close> returns whether the abstract map
  holds the key, and never raises.
\<close>

theorem contains_correct:
  assumes "wf nh s"
  shows "contains nh s (KStr k) = Some (Inr (k \<in> dom (abs_map (table s))))"
proof -
  obtain i where i: "i < length (table s)"
      "probe_find (table s) (KStr k) (cap s) (int (home nh s k)) = Some (Inr (int i))"
      "case abs_map (table s) k of None \<Rightarrow> table s ! i = Empty
         | Some v \<Rightarrow> table s ! i = Entry (KStr k) v"
    using probe_find_wf [OF assms] by blast
  then show ?thesis
    using assms by (auto simp: contains_def wf_start_index split: option.splits)
qed

theorem contains_correct_witness:
  "wf (\<lambda>_. 0) sample_table \<and> contains (\<lambda>_. 0) sample_table (KStr ''e'') = Some (Inr False)"
  using sample_table_wf contains_correct [OF sample_table_wf, of "''e''"]
  by (simp add: abs_map_def py_eval)


section \<open>Removal\<close>

lemma remove_post:
  assumes "wf nh s"
  shows "\<exists>t. remove nh s (KStr k) = Some (Inr (s\<lparr>table := t\<rparr>)) \<and>
     wf nh (s\<lparr>table := t\<rparr>) \<and> abs_map t = (abs_map (table s))(k := None)"
proof -
  let ?t = "table s"
  have sh: "shape_ok s" and ks: "keys_ok nh s" using assms by (auto simp: wf_def)
  have len: "int (length ?t) = cap s" using shape_ok_len [OF sh] .
  obtain i where i: "i < length ?t"
      "probe_find ?t (KStr k) (cap s) (int (home nh s k)) = Some (Inr (int i))"
      "case abs_map ?t k of None \<Rightarrow> ?t ! i = Empty | Some v \<Rightarrow> ?t ! i = Entry (KStr k) v"
    using probe_find_wf [OF assms] by blast
  show ?thesis
  proof (cases "abs_map ?t k")
    case None
    with i have "remove nh s (KStr k) = Some (Inr (s\<lparr>table := ?t\<rparr>))"
      using assms len by (simp add: remove_def wf_start_index)
    with assms None show ?thesis by (intro exI [of _ ?t]) (auto simp: fun_upd_idem)
  next
    case (Some v)
    with i have cell: "?t ! i = Entry (KStr k) v" by simp
    let ?t' = "?t[i := DELETED]"
    have rm: "remove nh s (KStr k) = Some (Inr (s\<lparr>table := ?t'\<rparr>))"
      using assms len i cell by (simp add: remove_def wf_start_index)
    have "keys_ok nh (s\<lparr>table := ?t'\<rparr>)"
      using keys_ok_write [OF ks i(1), of DELETED] by (simp add: DELETED_def)
    moreover have "shape_ok (s\<lparr>table := ?t'\<rparr>)"
      using sh used_count_update [OF i(1), of DELETED] cell by (simp add: shape_ok_def)
    moreover have "abs_map ?t' = (abs_map ?t)(k := None)"
    proof
      fix k'
      have u: "unique_keys ?t" using ks by (simp add: keys_ok_def)
      have u': "unique_keys ?t'" using unique_keys_update [OF u i(1), of DELETED] by (simp add: DELETED_def)
      show "abs_map ?t' k' = ((abs_map ?t)(k := None)) k'"
        using abs_map_update [OF u u' i(1), of k'] cell by (simp add: DELETED_def)
    qed
    ultimately show ?thesis using rm by (intro exI [of _ ?t']) (simp add: wf_def)
  qed
qed


text \<open>
  Claim C4: on a well-formed table, \<^verbatim>\<open>remove\<close> returns, changes only the slot array,
  keeps the table well-formed, and its effect on the abstract map is the deletion of the
  key (a no-op when the key is absent).
\<close>

theorem remove_correct:
  assumes "wf nh s"
  shows "\<exists>t. remove nh s (KStr k) = Some (Inr (s\<lparr>table := t\<rparr>)) \<and>
     wf nh (s\<lparr>table := t\<rparr>) \<and> abs_map t = (abs_map (table s))(k := None)"
  using remove_post [OF assms] .

theorem remove_correct_witness:
  "wf (\<lambda>_. 0) sample_table \<and>
   (\<exists>t. remove (\<lambda>_. 0) sample_table (KStr ''a'') = Some (Inr (sample_table\<lparr>table := t\<rparr>)) \<and>
        wf (\<lambda>_. 0) (sample_table\<lparr>table := t\<rparr>) \<and> abs_map t ''a'' = None \<and>
        abs_map t ''i'' = Some (VInt 2))"
proof -
  obtain t where t: "remove (\<lambda>_. 0) sample_table (KStr ''a'') = Some (Inr (sample_table\<lparr>table := t\<rparr>))"
      "wf (\<lambda>_. 0) (sample_table\<lparr>table := t\<rparr>)"
      "abs_map t = (abs_map (table sample_table))(''a'' := None)"
    using remove_correct [OF sample_table_wf, of "''a''"] by blast
  have "abs_map (table sample_table) ''i'' = Some (VInt 2)"
    by (simp add: abs_map_def py_eval)
  with t sample_table_wf show ?thesis by auto
qed

text \<open>
  Claim C15: after \<^verbatim>\<open>remove\<close> of a key from a well-formed table, \<^verbatim>\<open>get\<close> of that
  key raises \<^verbatim>\<open>KeyError\<close>, and every other key reads as before.
\<close>

theorem remove_then_get:
  assumes "wf nh s" "remove nh s (KStr k) = Some (Inr s')"
  shows "get nh s' (KStr k) = Some (Inl KeyError) \<and>
    (\<forall>k'. k' \<noteq> k \<longrightarrow> get nh s' (KStr k') = get nh s (KStr k'))"
proof -
  obtain t where t: "remove nh s (KStr k) = Some (Inr (s\<lparr>table := t\<rparr>))"
      "wf nh (s\<lparr>table := t\<rparr>)" "abs_map t = (abs_map (table s))(k := None)"
    using remove_post [OF assms(1), of k] by blast
  with assms(2) have s': "s' = s\<lparr>table := t\<rparr>" by simp
  show ?thesis using get_abs [OF t(2)] get_abs [OF assms(1)] t(3) s' by simp
qed

theorem remove_then_get_witness:
  "wf (\<lambda>_. 0) sample_table \<and>
   (\<exists>s'. remove (\<lambda>_. 0) sample_table (KStr ''a'') = Some (Inr s') \<and>
     get (\<lambda>_. 0) s' (KStr ''a'') = Some (Inl KeyError) \<and> get (\<lambda>_. 0) s' (KStr ''i'') = Some (Inr (VInt 2)))"
proof -
  obtain s' where r: "remove (\<lambda>_. 0) sample_table (KStr ''a'') = Some (Inr s')" by (simp add: py_eval)
  have "get (\<lambda>_. 0) sample_table (KStr ''i'') = Some (Inr (VInt 2))" by (simp add: py_eval)
  then show ?thesis using remove_then_get [OF sample_table_wf r] sample_table_wf r by auto
qed

end
