(* ===== verification/Hashmap_Insert.thy ===== *)
theory Hashmap_Insert
  imports Hashmap_Lookup
begin

text \<open>
  Correctness of \<^verbatim>\<open>put\<close>. The abstract operation it implements is \<open>abs_put\<close>:
  insert the key with the given value when it is absent, and otherwise store the old value
  plus one (the code's behaviour, lines 52--59), which raises \<^verbatim>\<open>TypeError\<close> on a
  \<^verbatim>\<open>None\<close> value; a put of the tombstone key, which only the rehash performs, leaves the
  map unchanged. The proof follows the body of \<^verbatim>\<open>put\<close>: the prelude either finishes
  the increment or hands over a start index from which the key is absent up to a free
  cell, the scan and the placement then write the key into that chain, and the rehash
  reinserts every cell through \<^verbatim>\<open>put\<close> itself, which fixpoint induction
  (\<open>put.raw_induct\<close>) covers.
\<close>

section \<open>The abstract operation\<close>

definition abs_put :: "(string \<rightharpoonup> pyval) \<Rightarrow> pykey \<Rightarrow> pyval \<Rightarrow> error + (string \<rightharpoonup> pyval)" where
  "abs_put m key v =
     (case key of
        KDel \<Rightarrow> Inr m
      | KStr k \<Rightarrow>
          (case m k of
             None \<Rightarrow> Inr (m(k \<mapsto> v))
           | Some old \<Rightarrow> sbind (py_add1 old) (\<lambda>v'. Inr (m(k \<mapsto> v')))))"

text \<open>
  What a successful \<^verbatim>\<open>put\<close> guarantees: the table is well-formed, its meaning is the
  abstract operation applied to the old meaning, the parameters are unchanged, the capacity
  never shrinks and at most one more cell is in use.
\<close>

definition put_post :: "native_hash \<Rightarrow> hashmap \<Rightarrow> pykey \<Rightarrow> pyval \<Rightarrow> hashmap \<Rightarrow> bool" where
  "put_post nh s key v s' \<longleftrightarrow>
     wf nh s' \<and> abs_put (abs_map (table s)) key v = Inr (abs_map (table s')) \<and>
     maxload s' = maxload s \<and> hashtype s' = hashtype s \<and> cap s \<le> cap s' \<and>
     numkeys s' \<le> numkeys s + 1"

text \<open>
  The key is absent from the probe chain that starts at \<open>a\<close>: the cell \<open>E\<close> steps on
  is free and every cell before it holds another key.
\<close>

definition absent_from :: "slot list \<Rightarrow> pykey \<Rightarrow> nat \<Rightarrow> nat \<Rightarrow> bool" where
  "absent_from tbl key a E \<longleftrightarrow>
     E < length tbl \<and> tbl ! ((a + E) mod length tbl) = Empty \<and>
     (\<forall>e<E. occupied_other (tbl ! ((a + e) mod length tbl)) key)"

text \<open>
  What the prelude hands to the main scan: the same table, and either an index past the
  end (left by the increment scan) or a start index from which the key is absent.
\<close>

definition cont_ok :: "native_hash \<Rightarrow> hashmap \<Rightarrow> pykey \<Rightarrow> pyval \<Rightarrow> hashmap \<Rightarrow> int \<Rightarrow> pyval \<Rightarrow> bool" where
  "cont_ok nh s key v s1 index value1 \<longleftrightarrow>
     table s1 = table s \<and> numkeys s1 = numkeys s \<and> cap s1 = cap s \<and>
     maxload s1 = maxload s \<and> hashtype s1 = hashtype s \<and> probe s \<le> probe s1 \<and>
     (int (length (table s)) \<le> index \<or>
      (value1 = v \<and> 0 \<le> index \<and> (\<exists>E. absent_from (table s) key (nat index) E) \<and>
       (\<forall>k. key = KStr k \<longrightarrow> nat index = home nh s k \<and> abs_map (table s) k = None)))"

section \<open>Frame lemmas\<close>

lemma wf_probe [simp]: "wf nh (s\<lparr>probe := x\<rparr>) = wf nh s"
  by (rule wf_cong) simp_all

lemma wf_collision [simp]: "wf nh (s\<lparr>collision := x\<rparr>) = wf nh s"
  by (rule wf_cong) simp_all

lemma start_index_probe [simp]: "start_index nh (s\<lparr>probe := x\<rparr>) key = start_index nh s key"
  by (simp add: start_index_def)

lemma start_index_bounds:
  "shape_ok s \<Longrightarrow> start_index nh s key = Inr i \<Longrightarrow> 0 \<le> i \<and> nat i < length (table s)"
  using hash_index_bounds [of nh "hashtype s" "cap s" key i]
  by (auto simp: start_index_def shape_ok_def)

section \<open>The linear scan on any key\<close>

text \<open>
  On a table with a free cell the linear scan from \<open>a\<close> returns the first cell that is
  free or holds the key; \<open>contains\<close> and \<open>get\<close> read that cell.
\<close>

lemma scan_outcome:
  assumes sh: "shape_ok s" and a: "a < length (table s)"
  shows "\<exists>d<length (table s).
     (\<forall>e<d. occupied_other (table s ! ((a + e) mod length (table s))) key) \<and>
     \<not> occupied_other (table s ! ((a + d) mod length (table s))) key \<and>
     probe_find (table s) key (cap s) (int a) = Some (Inr (int ((a + d) mod length (table s))))"
proof -
  obtain p where "p < length (table s)" "table s ! p = Empty"
    using shape_ok_free_cell [OF sh] by blast
  then show ?thesis
    using probe_find_returns [OF shape_ok_len_pos [OF sh] a] shape_ok_len [OF sh] by metis
qed

lemma contains_at:
  assumes "start_index nh s key = Inr (int a)" "i < length (table s)"
    and "probe_find (table s) key (cap s) (int a) = Some (Inr (int i))"
  shows "contains nh s key = Some (Inr (table s ! i \<noteq> Empty))"
  using assms by (simp add: contains_def)

lemma get_at:
  assumes "start_index nh s key = Inr (int a)" "i < length (table s)"
    and "probe_find (table s) key (cap s) (int a) = Some (Inr (int i))"
    and "table s ! i = Entry key w"
  shows "get nh s key = Some (Inr w)"
  using assms by (simp add: get_def)


section \<open>The prelude of put, branch by branch\<close>

lemma prelude_start_free:
  assumes "start_index nh s key = Inr (int a)" "a < length (table s)" "table s ! a = Empty"
  shows "put_prelude nh s key v = Some (Inr (Inr (s, int a, v)))"
  using assms by (simp add: put_prelude_def)

lemma prelude_absent:
  assumes "start_index nh s key = Inr (int a)" "a < length (table s)" "table s ! a \<noteq> Empty"
    and "c < length (table s)" "probe_find (table s) key (cap s) (int a) = Some (Inr (int c))"
    and "table s ! c = Empty"
  shows "put_prelude nh s key v =
    Some (Inr (Inr (s\<lparr>probe := probe s + 1, collision := collision s + 1\<rparr>, int a, v)))"
proof -
  have "contains nh (s\<lparr>probe := probe s + 1\<rparr>) key = Some (Inr False)"
    using contains_at [of nh "s\<lparr>probe := probe s + 1\<rparr>" key a c] assms by simp
  with assms show ?thesis by (simp add: put_prelude_def Let_def)
qed

lemma prelude_found:
  assumes "start_index nh s key = Inr (int a)" "a < length (table s)" "table s ! a \<noteq> Empty"
    and "c < length (table s)" "probe_find (table s) key (cap s) (int a) = Some (Inr (int c))"
    and "table s ! c = Entry key w"
    and "incr_loop (table s) key v' (cap s) (int a) = Inr ir" "py_add1 w = Inr v'"
  shows "put_prelude nh s key v =
    Some (Inr (case ir of
                 IncrDone t \<Rightarrow> Inl (s\<lparr>probe := probe s + 1, table := t\<rparr>)
               | IncrFall i \<Rightarrow> Inr (s\<lparr>probe := probe s + 1\<rparr>, i, v')))"
proof -
  let ?s1 = "s\<lparr>probe := probe s + 1\<rparr>"
  have "contains nh ?s1 key = Some (Inr True)"
    using contains_at [of nh ?s1 key a c] assms by simp
  moreover have "get nh ?s1 key = Some (Inr w)"
    using get_at [of nh ?s1 key a c w] assms by simp
  ultimately show ?thesis
    using assms by (simp add: put_prelude_def Let_def split: incr_result.splits)
qed

lemma prelude_add1_fails:
  assumes "start_index nh s key = Inr (int a)" "a < length (table s)" "table s ! a \<noteq> Empty"
    and "c < length (table s)" "probe_find (table s) key (cap s) (int a) = Some (Inr (int c))"
    and "table s ! c = Entry key w" "py_add1 w = Inl e"
  shows "put_prelude nh s key v = Some (Inl e)"
proof -
  let ?s1 = "s\<lparr>probe := probe s + 1\<rparr>"
  have "contains nh ?s1 key = Some (Inr True)"
    using contains_at [of nh ?s1 key a c] assms by simp
  moreover have "get nh ?s1 key = Some (Inr w)"
    using get_at [of nh ?s1 key a c w] assms by simp
  ultimately show ?thesis
    using assms by (simp add: put_prelude_def Let_def)
qed


section \<open>The prelude on a well-formed table\<close>

lemma stop_empty_absent:
  assumes wf: "wf nh s"
    and pf: "probe_find (table s) (KStr k) (cap s) (int (home nh s k)) = Some (Inr (int c))"
    and e: "table s ! c = Empty"
  shows "abs_map (table s) k = None"
proof (cases "abs_map (table s) k")
  case (Some w)
  obtain i where i: "probe_find (table s) (KStr k) (cap s) (int (home nh s k)) = Some (Inr (int i))"
      "case abs_map (table s) k of None \<Rightarrow> table s ! i = Empty | Some v \<Rightarrow> table s ! i = Entry (KStr k) v"
    using probe_find_wf [OF wf] by blast
  with pf have "c = i" by simp
  with i(2) Some e show ?thesis by simp
qed simp

lemma increment_post:
  assumes wf: "wf nh s" and c: "c < length (table s)" and cell: "table s ! c = Entry key w"
    and add: "py_add1 w = Inr v'"
  shows "put_post nh s key v (s\<lparr>probe := probe s + 1, table := (table s)[c := Entry key v']\<rparr>)"
proof -
  let ?t = "table s" and ?t' = "(table s)[c := Entry key v']"
  let ?s' = "s\<lparr>probe := probe s + 1, table := ?t'\<rparr>"
  have sh: "shape_ok s" and ks: "keys_ok nh s" using wf by (auto simp: wf_def)
  have u: "unique_keys ?t" using ks by (simp add: keys_ok_def)
  have others: "\<forall>q<length ?t. q \<noteq> c \<longrightarrow> (\<forall>u. ?t ! q \<noteq> Entry (KStr k) u)" if "key = KStr k" for k
    using unique_keysD [OF u _ c] cell that by blast
  have chain: "chain_ok ?t' (home nh s k) c" if "key = KStr k" for k
    using keys_okD [OF ks c] cell that chain_ok_update by fastforce
  have "keys_ok nh (s\<lparr>table := ?t'\<rparr>)"
    using keys_ok_write [OF ks c, of "Entry key v'"] others chain by simp
  then have ks': "keys_ok nh ?s'" using keys_ok_cong [of ?s' "s\<lparr>table := ?t'\<rparr>" nh] by simp
  have sh': "shape_ok ?s'"
    using sh used_count_update [OF c, of "Entry key v'"] cell by (simp add: shape_ok_def)
  have u': "unique_keys ?t'"
    using unique_keys_update [OF u c, of "Entry key v'"] others by simp
  have abs: "abs_put (abs_map ?t) key v = Inr (abs_map ?t')"
  proof (cases key)
    case (KStr k)
    with cell c u have "abs_map ?t k = Some w" by (auto simp: abs_map_Some_iff)
    moreover have "abs_map ?t' = (abs_map ?t)(k \<mapsto> v')"
      using abs_map_update [OF u u' c] cell KStr by (auto simp: fun_eq_iff)
    ultimately show ?thesis using KStr add by (simp add: abs_put_def)
  next
    case KDel
    have "abs_map ?t' = abs_map ?t"
      using abs_map_update [OF u u' c] cell KDel by (auto simp: fun_eq_iff)
    with KDel show ?thesis by (simp add: abs_put_def)
  qed
  show ?thesis using ks' sh' abs by (simp add: put_post_def wf_def)
qed

lemma put_prelude_ok:
  assumes wf: "wf nh s" and r: "put_prelude nh s key v = Some (Inr r)"
  shows "(\<forall>s1. r = Inl s1 \<longrightarrow> put_post nh s key v s1) \<and>
         (\<forall>s1 index value1. r = Inr (s1, index, value1) \<longrightarrow> cont_ok nh s key v s1 index value1)"
proof -
  let ?t = "table s" let ?n = "length (table s)"
  have sh: "shape_ok s" using wf by (simp add: wf_def)
  obtain index0 where si: "start_index nh s key = Inr index0"
    using r by (cases "start_index nh s key") (auto simp: put_prelude_def)
  define a where "a = nat index0"
  have a: "0 \<le> index0" "a < ?n" using start_index_bounds [OF sh si] by (auto simp: a_def)
  then have si': "start_index nh s key = Inr (int a)" using si by (simp add: a_def)
  have home: "a = home nh s k" if "key = KStr k" for k
    using si' wf_start_index [OF wf, of k] that by simp
  have len: "int ?n = cap s" using shape_ok_len [OF sh] .
  show ?thesis
  proof (cases "?t ! a = Empty")
    case True
    have "absent_from ?t key a 0" using True a by (auto simp: absent_from_def)
    moreover have "abs_map ?t k = None" if "key = KStr k" for k
    proof -
      have "probe_find ?t (KStr k) (cap s) (int (home nh s k)) = Some (Inr (int a))"
        using probe_find_stops [OF shape_ok_len_pos [OF sh] a(2), of 0 "KStr k"] True len home [OF that] a(2)
        by simp
      then show ?thesis using stop_empty_absent [OF wf] True by blast
    qed
    ultimately show ?thesis
      using r prelude_start_free [OF si' a(2) True, of v] home a
      by (auto simp: cont_ok_def a_def)
  next
    case ne: False
    obtain d where d: "d < ?n" "\<forall>e<d. occupied_other (?t ! ((a + e) mod ?n)) key"
        "\<not> occupied_other (?t ! ((a + d) mod ?n)) key"
        "probe_find ?t key (cap s) (int a) = Some (Inr (int ((a + d) mod ?n)))"
      using scan_outcome [OF sh a(2), of key] by blast
    define c where "c = (a + d) mod ?n"
    have c: "c < ?n" using shape_ok_len_pos [OF sh] unfolding c_def by simp
    show ?thesis
    proof (cases "?t ! c = Empty")
      case True
      have "absent_from ?t key a d" using True d by (simp add: absent_from_def c_def)
      moreover have "abs_map ?t k = None" if "key = KStr k" for k
        using stop_empty_absent [OF wf, of k c] d(4) True home [OF that] that by (simp add: c_def)
      ultimately show ?thesis
        using r prelude_absent [OF si' a(2) ne c, of v] d(4) True home a
        by (auto simp: cont_ok_def a_def c_def)
    next
      case False
      with d(3) obtain w where cell: "?t ! c = Entry key w"
        by (cases "?t ! c") (auto simp: c_def)
      show ?thesis
      proof (cases "py_add1 w")
        case (Inl e)
        with prelude_add1_fails [OF si' a(2) ne c _ cell Inl] d(4) r show ?thesis
          by (simp add: c_def)
      next
        case (Inr v')
        show ?thesis
        proof (cases "a + d < ?n")
          case True
          then have cad: "c = a + d" by (simp add: c_def)
          have "\<forall>q. a \<le> q \<and> q < c \<longrightarrow> occupied_other (?t ! q) key"
          proof (intro allI impI)
            fix q assume q: "a \<le> q \<and> q < c"
            then have "q - a < d" "(a + (q - a)) mod ?n = q" using cad c by auto
            with d(2) show "occupied_other (?t ! q) key" by metis
          qed
          then have incr: "incr_loop ?t key v' (cap s) (int a) = Inr (IncrDone (?t[c := Entry key v']))"
            using incr_loop_found [of a c ?t key w v'] cad c cell len by simp
          have "put_prelude nh s key v =
              Some (Inr (Inl (s\<lparr>probe := probe s + 1, table := ?t[c := Entry key v']\<rparr>)))"
            using prelude_found [OF si' a(2) ne c _ cell incr Inr, of v] d(4) by (simp add: c_def)
          with r increment_post [OF wf c cell Inr, of v] show ?thesis by auto
        next
          case False
          have "\<forall>q. a \<le> q \<and> q < ?n \<longrightarrow> occupied_other (?t ! q) key"
          proof (intro allI impI)
            fix q assume q: "a \<le> q \<and> q < ?n"
            then have "q - a < d" "(a + (q - a)) mod ?n = q" using False by auto
            with d(2) show "occupied_other (?t ! q) key" by metis
          qed
          then have incr: "incr_loop ?t key v' (cap s) (int a) = Inr (IncrFall (int ?n))"
            using incr_loop_falls [of a ?t key v'] a(2) len by simp
          have "put_prelude nh s key v = Some (Inr (Inr (s\<lparr>probe := probe s + 1\<rparr>, int ?n, v')))"
            using prelude_found [OF si' a(2) ne c _ cell incr Inr, of v] d(4) by (simp add: c_def)
          with r show ?thesis by (auto simp: cont_ok_def)
        qed
      qed
    qed
  qed
qed


section \<open>Scan and placement\<close>

text \<open>
  Writing the key into a cell of its chain that holds no live key (a free cell or a
  tombstone), when every cell before it is occupied, keeps the key invariant and implements
  the abstract insertion.
\<close>

lemma write_into_chain:
  assumes ks: "keys_ok nh s" and a: "a < length (table s)" and el: "el < length (table s)"
    and w: "w = (a + el) mod length (table s)"
    and before: "\<forall>e<el. table s ! ((a + e) mod length (table s)) \<noteq> Empty"
    and dead: "\<forall>k u. table s ! w \<noteq> Entry (KStr k) u"
    and kk: "\<And>k. key = KStr k \<Longrightarrow> a = home nh s k \<and> abs_map (table s) k = None"
  shows "keys_ok nh (s\<lparr>table := (table s)[w := Entry key v]\<rparr>) \<and>
         abs_put (abs_map (table s)) key v = Inr (abs_map ((table s)[w := Entry key v]))"
proof -
  let ?t = "table s" and ?n = "length (table s)" and ?t' = "(table s)[w := Entry key v]"
  have n: "0 < ?n" using a by linarith
  have wn: "w < ?n" using w n by simp
  have u: "unique_keys ?t" using ks by (simp add: keys_ok_def)
  have others: "\<forall>q<?n. q \<noteq> w \<longrightarrow> (\<forall>u. ?t ! q \<noteq> Entry (KStr k) u)" if "key = KStr k" for k
    using kk [OF that] by (simp add: abs_map_None_iff)
  have chain: "chain_ok ?t' (home nh s k) w" if "key = KStr k" for k
  proof (rule chain_okI)
    fix j assume "j \<le> cdist (length ?t') (home nh s k) w"
    then have j: "j \<le> el" using kk [OF that] cdist_of_mod [OF a el] w by simp
    show "?t' ! ((home nh s k + j) mod length ?t') \<noteq> Empty"
    proof (cases "j = el")
      case True
      with w wn kk [OF that] show ?thesis by simp
    next
      case False
      with j before have "?t ! ((a + j) mod ?n) \<noteq> Empty" by simp
      with kk [OF that] show ?thesis by (simp add: nth_update_nonempty)
    qed
  qed
  have u': "unique_keys ?t'" using unique_keys_update [OF u wn, of "Entry key v"] others by simp
  have "keys_ok nh (s\<lparr>table := ?t'\<rparr>)"
    using keys_ok_write [OF ks wn, of "Entry key v"] others chain by simp
  moreover have "abs_put (abs_map ?t) key v = Inr (abs_map ?t')"
  proof (cases key)
    case (KStr k)
    have "abs_map ?t' = (abs_map ?t)(k \<mapsto> v)"
      using abs_map_update [OF u u' wn] dead KStr
      by (auto simp: fun_eq_iff split: slot.splits pykey.splits)
    with KStr kk [OF KStr] show ?thesis by (simp add: abs_put_def)
  next
    case KDel
    have "abs_map ?t' = abs_map ?t"
      using abs_map_update [OF u u' wn] dead KDel
      by (auto simp: fun_eq_iff split: slot.splits pykey.splits)
    with KDel show ?thesis by (simp add: abs_put_def)
  qed
  ultimately show ?thesis by simp
qed


text \<open>
  From a start index where the key is absent, the scan of \<^verbatim>\<open>put\<close> returns, raising at
  most \<^verbatim>\<open>IndexError\<close>; when it returns normally it stops at the free cell that ends the
  chain, and the placement writes the key there or into the tombstone the scan recorded.
\<close>

definition placed_ok :: "native_hash \<Rightarrow> hashmap \<Rightarrow> pykey \<Rightarrow> pyval \<Rightarrow> hashmap \<Rightarrow> bool" where
  "placed_ok nh s1 key v s2 \<longleftrightarrow>
     keys_ok nh s2 \<and> length (table s2) = length (table s1) \<and>
     numkeys s2 = int (used_count (table s2)) \<and> numkeys s2 \<le> numkeys s1 + 1 \<and>
     cap s2 = cap s1 \<and> maxload s2 = maxload s1 \<and> hashtype s2 = hashtype s1 \<and>
     abs_put (abs_map (table s1)) key v = Inr (abs_map (table s2))"

lemma insert_step:
  assumes wf: "wf nh s1" and ab: "absent_from (table s1) key a E" and a: "a < length (table s1)"
    and kk: "\<And>k. key = KStr k \<Longrightarrow> a = home nh s1 k \<and> abs_map (table s1) k = None"
  shows "\<exists>r. put_probe (table s1) key (int a) None pr = Some r \<and> (\<forall>e. r = Inl e \<longrightarrow> e = IndexError) \<and>
     (\<forall>i' fd pr'. r = Inr (i', fd, pr') \<longrightarrow>
        (\<exists>s2. put_place (s1\<lparr>probe := pr'\<rparr>) key v i' fd = Inr s2 \<and> placed_ok nh s1 key v s2))"
proof -
  let ?t = "table s1" and ?n = "length (table s1)"
  have sh: "shape_ok s1" and ks: "keys_ok nh s1" using wf by (auto simp: wf_def)
  have n: "0 < ?n" using a by linarith
  from ab have E: "E < ?n" "?t ! ((a + E) mod ?n) = Empty"
    and occ: "\<forall>e<E. occupied_other (?t ! ((a + e) mod ?n)) key"
    by (auto simp: absent_from_def)
  obtain r where r: "put_probe ?t key (int a) None pr = Some r" "scan_ok ?t key a E 0 pr r"
    using put_probe_scan [OF n a E(2), of 0 None key pr] a by (auto simp: fd_ok_def)
  have "\<exists>s2. put_place (s1\<lparr>probe := pr'\<rparr>) key v i' fd = Inr s2 \<and> placed_ok nh s1 key v s2"
    if ri: "r = Inr (i', fd, pr')" for i' fd pr'
  proof -
    obtain j' where j': "j' \<le> E" "i' = int ((a + j') mod ?n)"
        "\<forall>e<j'. ?t ! ((a + e) mod ?n) \<noteq> Empty" "\<not> occupied_other (?t ! ((a + j') mod ?n)) key"
        "fd_ok ?t a j' fd"
      using r(2) ri by (auto simp: scan_ok_def)
    have "j' = E"
    proof (rule ccontr)
      assume "j' \<noteq> E"
      with j'(1) have "j' < E" by simp
      with occ j'(4) show False by blast
    qed
    with j' have i': "i' = int ((a + E) mod ?n)" and fd: "fd_ok ?t a E fd"
      and before: "\<forall>e<E. ?t ! ((a + e) mod ?n) \<noteq> Empty" by auto
    have iE: "(a + E) mod ?n < ?n" using n by simp
    show ?thesis
    proof (cases fd)
      case None
      let ?w = "(a + E) mod ?n"
      let ?s2 = "s1\<lparr>probe := pr', numkeys := numkeys s1 + 1, table := ?t[?w := Entry key v]\<rparr>"
      have pl: "put_place (s1\<lparr>probe := pr'\<rparr>) key v i' fd = Inr ?s2"
        using None i' iE E(2) by (simp add: put_place_def put_write_def)
      have w: "keys_ok nh (s1\<lparr>table := ?t[?w := Entry key v]\<rparr>) \<and>
          abs_put (abs_map ?t) key v = Inr (abs_map (?t[?w := Entry key v]))"
        using write_into_chain [OF ks a E(1) refl before _ kk] E(2) by simp
      have "keys_ok nh ?s2"
        using w keys_ok_cong [of ?s2 "s1\<lparr>table := ?t[?w := Entry key v]\<rparr>" nh] by simp
      moreover have "numkeys ?s2 = int (used_count (table ?s2))"
        using sh used_count_update [OF iE, of "Entry key v"] E(2) by (simp add: shape_ok_def)
      ultimately show ?thesis using pl w by (simp add: placed_ok_def)
    next
      case (Some f)
      with fd obtain e where e: "e < E" "f = int ((a + e) mod ?n)" "?t ! ((a + e) mod ?n) = DELETED"
        by (auto simp: fd_ok_def)
      let ?w = "(a + e) mod ?n"
      let ?s2 = "s1\<lparr>probe := pr', table := ?t[?w := Entry key v]\<rparr>"
      have wn: "?w < ?n" using n by simp
      have pl: "put_place (s1\<lparr>probe := pr'\<rparr>) key v i' fd = Inr ?s2"
        using Some e i' iE wn E(2) by (simp add: put_place_def put_write_def)
      have w: "keys_ok nh (s1\<lparr>table := ?t[?w := Entry key v]\<rparr>) \<and>
          abs_put (abs_map ?t) key v = Inr (abs_map (?t[?w := Entry key v]))"
        using write_into_chain [where el = e and v = v and key = key, OF ks a _ refl _ _ kk] e E(1) before
        by (simp add: DELETED_def)
      have "keys_ok nh ?s2"
        using w keys_ok_cong [of ?s2 "s1\<lparr>table := ?t[?w := Entry key v]\<rparr>" nh] by simp
      moreover have "numkeys ?s2 = int (used_count (table ?s2))"
        using sh used_count_update [OF wn, of "Entry key v"] e(3) by (simp add: shape_ok_def)
      ultimately show ?thesis using pl w by (simp add: placed_ok_def)
    qed
  qed
  moreover have "\<forall>e. r = Inl e \<longrightarrow> e = IndexError" using r(2) by (auto simp: scan_ok_def)
  ultimately show ?thesis using r(1) by blast
qed


section \<open>The prelude returns\<close>

lemma shape_ok_probe [simp]: "shape_ok (s\<lparr>probe := x\<rparr>) = shape_ok s"
  by (simp add: shape_ok_def)

lemma home_cong:
  "hashtype s' = hashtype s \<Longrightarrow> cap s' = cap s \<Longrightarrow> home nh s' k = home nh s k"
  by (simp add: home_def)

lemma scan_returns:
  assumes "shape_ok s" "start_index nh s key = Inr i"
  shows "\<exists>j. 0 \<le> j \<and> nat j < length (table s) \<and> probe_find (table s) key (cap s) i = Some (Inr j)"
proof -
  have i: "0 \<le> i" "nat i < length (table s)" using start_index_bounds [OF assms] by auto
  obtain d where "probe_find (table s) key (cap s) (int (nat i)) =
      Some (Inr (int ((nat i + d) mod length (table s))))"
    using scan_outcome [OF assms(1) i(2), of key] by blast
  moreover have "(nat i + d) mod length (table s) < length (table s)"
    using i(2) by (intro mod_less_divisor) linarith
  ultimately show ?thesis using i by (intro exI [of _ "int ((nat i + d) mod length (table s))"]) simp
qed

lemma contains_returns: "shape_ok s \<Longrightarrow> \<exists>r. contains nh s key = Some r"
  by (cases "start_index nh s key") (auto simp: contains_def dest!: scan_returns)

lemma get_returns: "shape_ok s \<Longrightarrow> \<exists>r. get nh s key = Some r"
  by (cases "start_index nh s key") (auto simp: get_def dest!: scan_returns)

lemma put_prelude_returns:
  assumes sh: "shape_ok s"
  shows "\<exists>r. put_prelude nh s key v = Some r"
proof -
  let ?s1 = "s\<lparr>probe := probe s + 1\<rparr>"
  obtain rc where c: "contains nh ?s1 key = Some rc" using contains_returns [of ?s1] sh by auto
  obtain rg where g: "get nh ?s1 key = Some rg" using get_returns [of ?s1] sh by auto
  show ?thesis
    using c g by (auto simp: put_prelude_def Let_def pbind_Some_iff split: incr_result.splits)
qed

section \<open>One unfolding of put\<close>

text \<open>
  On a well-formed table the body of \<^verbatim>\<open>put\<close> up to the load test, for any
  continuation \<open>K\<close>, raises, finishes the increment, or places the key and passes the
  table to \<open>K\<close>.
\<close>

lemma put_probe_past_end:
  "int (length tbl) \<le> index \<Longrightarrow> put_probe tbl key index fd pr = Some (Inl IndexError)"
  by (subst put_probe.simps) simp

lemma put_front:
  assumes wf: "wf nh s"
  shows "(\<exists>e. pbind (put_prelude nh s key v) (\<lambda>r. case r of Inl s_done \<Rightarrow> Some (Inr s_done)
          | Inr (s1, index, value1) \<Rightarrow>
            pbind (put_probe (table s1) key index None (probe s1)) (\<lambda>(index', firstDeleted, pr).
            pbind (Some (put_place (s1\<lparr>probe := pr\<rparr>) key value1 index' firstDeleted)) K)) =
            Some (Inl e)) \<or>
     (\<exists>s'. pbind (put_prelude nh s key v) (\<lambda>r. case r of Inl s_done \<Rightarrow> Some (Inr s_done)
          | Inr (s1, index, value1) \<Rightarrow>
            pbind (put_probe (table s1) key index None (probe s1)) (\<lambda>(index', firstDeleted, pr).
            pbind (Some (put_place (s1\<lparr>probe := pr\<rparr>) key value1 index' firstDeleted)) K)) =
            Some (Inr s') \<and> put_post nh s key v s') \<or>
     (\<exists>s2. pbind (put_prelude nh s key v) (\<lambda>r. case r of Inl s_done \<Rightarrow> Some (Inr s_done)
          | Inr (s1, index, value1) \<Rightarrow>
            pbind (put_probe (table s1) key index None (probe s1)) (\<lambda>(index', firstDeleted, pr).
            pbind (Some (put_place (s1\<lparr>probe := pr\<rparr>) key value1 index' firstDeleted)) K)) =
            K s2 \<and> placed_ok nh s key v s2)"
proof -
  have sh: "shape_ok s" using wf by (simp add: wf_def)
  obtain r0 where p: "put_prelude nh s key v = Some r0" using put_prelude_returns [OF sh] by blast
  show ?thesis
  proof (cases r0)
    case (Inl e)
    with p show ?thesis by simp
  next
    case (Inr r)
    note ok = put_prelude_ok [OF wf p [unfolded Inr]]
    show ?thesis
    proof (cases r)
      case (Inl s1)
      with ok p Inr show ?thesis by simp
    next
      case (Inr c)
      obtain s1 index value1 where c: "c = (s1, index, value1)" by (cases c) auto
      with ok Inr have co: "cont_ok nh s key v s1 index value1" by simp
      show ?thesis
      proof (cases "int (length (table s)) \<le> index")
        case True
        with co have "put_probe (table s1) key index None (probe s1) = Some (Inl IndexError)"
          by (simp add: cont_ok_def put_probe_past_end)
        with p Inr c \<open>r0 = Inr r\<close> show ?thesis by simp
      next
        case False
        with co obtain E where eq: "table s1 = table s" "numkeys s1 = numkeys s" "cap s1 = cap s"
            "maxload s1 = maxload s" "hashtype s1 = hashtype s"
          and v1: "value1 = v" "0 \<le> index" and ab: "absent_from (table s) key (nat index) E"
          and kk: "\<And>k. key = KStr k \<Longrightarrow> nat index = home nh s k \<and> abs_map (table s) k = None"
          by (auto simp: cont_ok_def)
        have wf1: "wf nh s1" using wf_cong [of s1 s nh] eq wf by simp
        have a: "nat index < length (table s1)" using False v1 eq by simp
        have kk1: "nat index = home nh s1 k \<and> abs_map (table s1) k = None" if "key = KStr k" for k
          using kk [OF that] home_cong [of s1 s nh k] eq by simp
        obtain r1 where r1: "put_probe (table s1) key (int (nat index)) None (probe s1) = Some r1"
            "\<forall>e. r1 = Inl e \<longrightarrow> e = IndexError"
            "\<forall>i' fd pr'. r1 = Inr (i', fd, pr') \<longrightarrow>
               (\<exists>s2. put_place (s1\<lparr>probe := pr'\<rparr>) key v i' fd = Inr s2 \<and> placed_ok nh s1 key v s2)"
          using insert_step [OF wf1 _ a kk1, where E = E and v = v and pr = "probe s1" and key = key] ab eq
          by auto
        show ?thesis
        proof (cases r1)
          case (Inl e)
          with r1 p Inr c \<open>r0 = Inr r\<close> v1 show ?thesis by simp
        next
          case (Inr x)
          obtain i' fd pr' where x: "x = (i', fd, pr')" by (cases x) auto
          with r1 Inr obtain s2 where s2: "put_place (s1\<lparr>probe := pr'\<rparr>) key v i' fd = Inr s2"
              "placed_ok nh s1 key v s2" by blast
          then have "placed_ok nh s key v s2" using eq by (simp add: placed_ok_def)
          with s2 r1 p Inr x c \<open>r0 = Inr r\<close> \<open>r = Inr c\<close> v1 show ?thesis by auto
        qed
      qed
    qed
  qed
qed

section \<open>The rehash\<close>

lemma unique_keys_tl: "unique_keys (x # t) \<Longrightarrow> unique_keys t"
  by (rule unique_keysI) (auto dest: unique_keysD [of _ "Suc p" "Suc q" for p q])

lemma unique_keys_distinct: "unique_keys tbl \<Longrightarrow> distinct (map fst (live_entries tbl))"
proof (induction tbl rule: live_entries.induct)
  case (2 k v t)
  have "k \<notin> fst ` set (live_entries t)"
  proof
    assume "k \<in> fst ` set (live_entries t)"
    then obtain p w where "p < length t" "t ! p = Entry (KStr k) w"
      by (auto simp: live_entries_set)
    with unique_keysD [OF "2.prems", of 0 "Suc p" k v w] show False by simp
  qed
  with 2 unique_keys_tl show ?case by simp
qed (auto dest: unique_keys_tl)

lemma wf_grow:
  assumes "0 < cap s" "0 < maxload s" "maxload s < 1"
  shows "wf nh (grow s)"
proof -
  have "keys_ok nh (grow s)"
    by (rule keys_okI) (auto simp: grow_def unique_keys_def same_live_key_iff)
  then show ?thesis using assms by (simp add: wf_def shape_ok_def grow_def)
qed

lemma reinsert_post:
  assumes IH: "\<And>t k v t'. wf nh t \<Longrightarrow> f t k v = Some (Inr t') \<Longrightarrow> put_post nh t k v t'"
  shows "wf nh s0 \<Longrightarrow> reinsert f xs s0 = Some (Inr s') \<Longrightarrow> distinct (map fst (live_entries xs)) \<Longrightarrow>
    (\<forall>k\<in>fst ` set (live_entries xs). abs_map (table s0) k = None) \<Longrightarrow>
    wf nh s' \<and> abs_map (table s') = abs_map (table s0) ++ map_of (live_entries xs) \<and>
    maxload s' = maxload s0 \<and> hashtype s' = hashtype s0 \<and> cap s0 \<le> cap s' \<and>
    numkeys s' \<le> numkeys s0 + int (used_count xs)"
proof (induction xs arbitrary: s0)
  case Nil
  then show ?case by simp
next
  case (Cons x t)
  show ?case
  proof (cases x)
    case Empty
    with Cons show ?thesis by simp
  next
    case (Entry key v)
    from Cons.prems(2) Entry obtain s1 where s1: "f s0 key v = Some (Inr s1)" "reinsert f t s1 = Some (Inr s')"
      by (auto simp: pbind_eq_Some_Inr_iff)
    have pp: "put_post nh s0 key v s1" using IH [OF Cons.prems(1) s1(1)] .
    show ?thesis
    proof (cases key)
      case (KStr k)
      have ab: "abs_map (table s1) = (abs_map (table s0))(k \<mapsto> v)"
        using pp Cons.prems(4) Entry KStr by (simp add: put_post_def abs_put_def)
      have k: "k \<notin> dom (map_of (live_entries t))"
        using Cons.prems(3) Entry KStr by (auto simp: dom_map_of_conv_image_fst)
      have "\<forall>k'\<in>fst ` set (live_entries t). abs_map (table s1) k' = None"
        using Cons.prems(3,4) Entry KStr ab by auto
      then have post: "wf nh s' \<and> abs_map (table s') = abs_map (table s1) ++ map_of (live_entries t) \<and>
        maxload s' = maxload s1 \<and> hashtype s' = hashtype s1 \<and> cap s1 \<le> cap s' \<and>
        numkeys s' \<le> numkeys s1 + int (used_count t)"
        using Cons.IH [OF _ s1(2)] pp Cons.prems(3) Entry KStr by (simp add: put_post_def)
      have "abs_map (table s') = (abs_map (table s0))(k \<mapsto> v) ++ map_of (live_entries t)"
        using post ab by simp
      also have "\<dots> = (abs_map (table s0) ++ map_of (live_entries t))(k \<mapsto> v)"
        by (rule map_add_upd_left [OF k])
      also have "\<dots> = abs_map (table s0) ++ map_of (live_entries (Entry (KStr k) v # t))"
        by (simp only: live_entries.simps map_of.simps map_add_upd fst_conv snd_conv)
      finally have ab': "abs_map (table s') = abs_map (table s0) ++ map_of (live_entries (x # t))"
        using Entry KStr by simp
      have "wf nh s' \<and> maxload s' = maxload s0 \<and> hashtype s' = hashtype s0 \<and> cap s0 \<le> cap s' \<and>
          numkeys s' \<le> numkeys s0 + int (used_count (x # t))"
        using post pp Entry by (auto simp: put_post_def)
      with ab' show ?thesis by blast
    next
      case KDel
      then have ab: "abs_map (table s1) = abs_map (table s0)"
        using pp by (simp add: put_post_def abs_put_def)
      show ?thesis using Cons.IH [OF _ s1(2)] pp Cons.prems(3,4) ab Entry KDel
        by (auto simp: put_post_def)
    qed
  qed
qed

section \<open>Partial correctness by fixpoint induction\<close>

lemma put_front_cases:
  assumes wf: "wf nh s"
    and body: "pbind (put_prelude nh s key v) (\<lambda>r. case r of Inl s_done \<Rightarrow> Some (Inr s_done)
          | Inr (s1, index, value1) \<Rightarrow>
            pbind (put_probe (table s1) key index None (probe s1)) (\<lambda>(index', firstDeleted, pr).
            pbind (Some (put_place (s1\<lparr>probe := pr\<rparr>) key value1 index' firstDeleted)) K)) = Some r"
  shows "(\<exists>e. r = Inl e) \<or> (\<exists>s'. r = Inr s' \<and> put_post nh s key v s') \<or>
         (\<exists>s2. K s2 = Some r \<and> placed_ok nh s key v s2)"
  using put_front [OF wf, of key v K, unfolded body] by auto

lemma load_test:
  "0 < cap s \<Longrightarrow>
   py_truediv (numkeys s) (cap s) = Inr (of_int (numkeys s) / of_int (cap s)) \<and>
   (maxload s < of_int (numkeys s) / of_int (cap s) \<longleftrightarrow>
    maxload s * of_int (cap s) < of_int (numkeys s))"
  by (simp add: py_truediv_def pos_less_divide_eq)

lemma placed_wf:
  assumes wf: "wf nh s" and pl: "placed_ok nh s key v s2"
    and ld: "of_int (numkeys s2) \<le> maxload s2 * of_int (cap s2)"
  shows "put_post nh s key v s2"
  using wf pl ld by (simp add: wf_def shape_ok_def placed_ok_def put_post_def)

lemma rehash_post:
  assumes wf: "wf nh s" and pl: "placed_ok nh s key v s2"
    and IH: "\<And>t k v t'. wf nh t \<Longrightarrow> f t k v = Some (Inr t') \<Longrightarrow> put_post nh t k v t'"
    and r: "reinsert f (table s2) (grow s2) = Some (Inr s')"
  shows "put_post nh s key v s'"
proof -
  have sh: "shape_ok s" using wf by (simp add: wf_def)
  have p2: "keys_ok nh s2" "numkeys s2 = int (used_count (table s2))" "numkeys s2 \<le> numkeys s + 1"
      "cap s2 = cap s" "maxload s2 = maxload s" "hashtype s2 = hashtype s"
      "abs_put (abs_map (table s)) key v = Inr (abs_map (table s2))"
    using pl by (simp_all add: placed_ok_def)
  have g: "wf nh (grow s2)" using sh p2 by (intro wf_grow) (simp_all add: shape_ok_def)
  have u: "unique_keys (table s2)" using p2(1) by (simp add: keys_ok_def)
  have e: "abs_map (table (grow s2)) = Map.empty" by (simp add: grow_def abs_map_def)
  have R: "wf nh s' \<and> abs_map (table s') = abs_map (table (grow s2)) ++ map_of (live_entries (table s2)) \<and>
      maxload s' = maxload (grow s2) \<and> hashtype s' = hashtype (grow s2) \<and> cap (grow s2) \<le> cap s' \<and>
      numkeys s' \<le> numkeys (grow s2) + int (used_count (table s2))"
    using reinsert_post [OF IH g r unique_keys_distinct [OF u]] e by simp
  have "abs_map (table s') = abs_map (table s2)" using R e by (simp add: abs_map_def)
  moreover have "cap s \<le> cap s'" using R p2(4) sh by (simp add: grow_def shape_ok_def)
  moreover have "numkeys s' \<le> numkeys s + 1" using R p2(2,3) by (simp add: grow_def)
  moreover have "maxload s' = maxload s \<and> hashtype s' = hashtype s" using R p2(5,6) by (simp add: grow_def)
  ultimately show ?thesis using R p2(7) by (simp add: put_post_def)
qed

lemma put_step:
  assumes IH: "\<And>nh' t k u y. f nh' t k u = Some y \<Longrightarrow>
      wf nh' t \<longrightarrow> (\<forall>t'. y = Inr t' \<longrightarrow> put_post nh' t k u t')"
    and body: "pbind (put_prelude nh s key v) (\<lambda>r. case r of Inl s_done \<Rightarrow> Some (Inr s_done)
          | Inr (s1, index, value1) \<Rightarrow>
            pbind (put_probe (table s1) key index None (probe s1)) (\<lambda>(index', firstDeleted, pr).
            pbind (Some (put_place (s1\<lparr>probe := pr\<rparr>) key value1 index' firstDeleted))
              (\<lambda>s2. pbind (Some (py_truediv (numkeys s2) (cap s2))) (\<lambda>load.
                 if maxload s2 < load then reinsert (f nh) (table s2) (grow s2)
                 else Some (Inr s2))))) = Some r"
  shows "wf nh s \<longrightarrow> (\<forall>s'. r = Inr s' \<longrightarrow> put_post nh s key v s')"
proof (intro impI allI)
  fix s' assume wf: "wf nh s" and r: "r = Inr s'"
  have IH': "put_post nh t k u t'" if "wf nh t" "f nh t k u = Some (Inr t')" for t k u t'
    using IH [OF that(2)] that(1) by blast
  have cap: "0 < cap s" using wf by (simp add: wf_def shape_ok_def)
  consider (err) e where "r = Inl e" | (fin) s'' where "r = Inr s''" "put_post nh s key v s''"
    | (placed) s2 where "pbind (Some (py_truediv (numkeys s2) (cap s2))) (\<lambda>load.
                 if maxload s2 < load then reinsert (f nh) (table s2) (grow s2)
                 else Some (Inr s2)) = Some r" "placed_ok nh s key v s2"
    using put_front_cases [OF wf body] by blast
  then show "put_post nh s key v s'"
  proof cases
    case err
    with r show ?thesis by simp
  next
    case fin
    with r show ?thesis by simp
  next
    case placed
    have c2: "0 < cap s2" using placed(2) cap by (simp add: placed_ok_def)
    note lt = load_test [OF c2]
    show ?thesis
    proof (cases "maxload s2 * of_int (cap s2) < of_int (numkeys s2)")
      case True
      with placed(1) lt r have "reinsert (f nh) (table s2) (grow s2) = Some (Inr s')" by simp
      then show ?thesis using rehash_post [OF wf placed(2), of "f nh"] IH' by blast
    next
      case False
      with placed(1) lt r have "s' = s2" by simp
      with False show ?thesis using placed_wf [OF wf placed(2)] by simp
    qed
  qed
qed

lemma put_post_holds:
  assumes wf: "wf nh s" and ret: "put nh s key v = Some (Inr s')"
  shows "put_post nh s key v s'"
proof -
  note R = put.raw_induct [where P = "\<lambda>nh s key v r. wf nh s \<longrightarrow>
      (\<forall>s'. r = Inr s' \<longrightarrow> put_post nh s key v s')", OF _ ret]
  have "wf nh s \<longrightarrow> (\<forall>t. (Inr s' :: error + hashmap) = Inr t \<longrightarrow> put_post nh s key v t)"
    by (rule R, rule put_step, assumption+)
  with wf show ?thesis by simp
qed

section \<open>Termination\<close>

text \<open>
  The rehash calls \<^verbatim>\<open>put\<close> on a table of twice the capacity, and every nested
  call sees at most \<open>N\<close> cells in use, \<open>N\<close> the count before the outer call plus
  one. A call whose capacity \<open>c\<close> satisfies \<open>N \<le> maxload * c * 2 ^ n\<close> therefore
  returns, by induction on \<open>n\<close>: at \<open>n = 0\<close> the load test cannot fire.
\<close>

lemma returns_of_cases:
  assumes "(\<exists>e. X = Some (Inl e)) \<or> (\<exists>s'. X = Some (Inr s') \<and> P s') \<or> (\<exists>s2. X = K s2 \<and> Q s2)"
    and "\<And>s2. Q s2 \<Longrightarrow> \<exists>r. K s2 = Some r"
  shows "\<exists>r. X = Some r"
  using assms by blast

lemma put_returns_step:
  assumes wf: "wf nh s"
    and K: "\<And>s2. placed_ok nh s key v s2 \<Longrightarrow> \<exists>r. K s2 = Some r"
  shows "\<exists>r. pbind (put_prelude nh s key v) (\<lambda>r. case r of Inl s_done \<Rightarrow> Some (Inr s_done)
          | Inr (s1, index, value1) \<Rightarrow>
            pbind (put_probe (table s1) key index None (probe s1)) (\<lambda>(index', firstDeleted, pr).
            pbind (Some (put_place (s1\<lparr>probe := pr\<rparr>) key value1 index' firstDeleted)) K)) = Some r"
  by (rule returns_of_cases [OF put_front [OF wf, of key v K] K])

lemma reinsert_returns:
  assumes R: "\<And>t k u. wf nh t \<Longrightarrow> c0 \<le> cap t \<Longrightarrow> maxload t = ml0 \<Longrightarrow> numkeys t + 1 \<le> N \<Longrightarrow>
      \<exists>r. f t k u = Some r"
    and C: "\<And>t k u t'. wf nh t \<Longrightarrow> f t k u = Some (Inr t') \<Longrightarrow> put_post nh t k u t'"
  shows "wf nh st \<Longrightarrow> c0 \<le> cap st \<Longrightarrow> maxload st = ml0 \<Longrightarrow>
    numkeys st + int (used_count xs) \<le> N \<Longrightarrow> \<exists>r. reinsert f xs st = Some r"
proof (induction xs arbitrary: st)
  case Nil
  then show ?case by simp
next
  case (Cons x xs)
  show ?case
  proof (cases x)
    case Empty
    with Cons show ?thesis by simp
  next
    case (Entry k u)
    with Cons.prems obtain r where r: "f st k u = Some r" using R by fastforce
    show ?thesis
    proof (cases r)
      case (Inl e)
      with r Entry show ?thesis by simp
    next
      case (Inr t)
      with C [OF Cons.prems(1)] r have "put_post nh st k u t" by simp
      then have "\<exists>r. reinsert f xs t = Some r"
        using Cons.IH [of t] Cons.prems Entry by (simp add: put_post_def)
      with r Inr Entry show ?thesis by simp
    qed
  qed
qed

lemma load_bound_double:
  assumes "0 < ml" "0 < c" "c * 2 \<le> c'"
  shows "ml * of_int c * 2 ^ Suc m \<le> (ml :: rat) * of_int c' * 2 ^ m"
proof -
  have "ml * of_int c * 2 ^ Suc m = ml * of_int (c * 2) * 2 ^ m" by simp
  also have "\<dots> \<le> ml * of_int c' * 2 ^ m"
    using assms by (intro mult_right_mono mult_left_mono) simp_all
  finally show ?thesis .
qed

lemma put_returns_within:
  "wf nh s \<Longrightarrow> numkeys s + 1 \<le> N \<Longrightarrow> of_int N \<le> maxload s * of_int (cap s) * 2 ^ n \<Longrightarrow>
   \<exists>r. put nh s key v = Some r"
proof (induction n arbitrary: s key v N)
  case (0 s key v N)
  have "\<exists>r. pbind (Some (py_truediv (numkeys s2) (cap s2))) (\<lambda>load.
      if maxload s2 < load then reinsert (put nh) (table s2) (grow s2) else Some (Inr s2)) = Some r"
    if pl: "placed_ok nh s key v s2" for s2
  proof -
    have c2: "0 < cap s2" using pl "0.prems"(1) by (simp add: placed_ok_def wf_def shape_ok_def)
    have "\<not> maxload s2 * of_int (cap s2) < of_int (numkeys s2)"
      using pl "0.prems"(2,3) by (simp add: placed_ok_def)
    then show ?thesis using load_test [OF c2] by simp
  qed
  then show ?case by (subst put.simps) (rule put_returns_step [OF "0.prems"(1)])
next
  case (Suc m s key v N)
  have "\<exists>r. pbind (Some (py_truediv (numkeys s2) (cap s2))) (\<lambda>load.
      if maxload s2 < load then reinsert (put nh) (table s2) (grow s2) else Some (Inr s2)) = Some r"
    if pl: "placed_ok nh s key v s2" for s2
  proof -
    have sh: "shape_ok s" using "Suc.prems"(1) by (simp add: wf_def)
    have c2: "0 < cap s2" "cap s2 = cap s" "maxload s2 = maxload s"
      using pl sh by (simp_all add: placed_ok_def shape_ok_def)
    have R: "\<exists>r. put nh t k u = Some r"
      if "wf nh t" "cap (grow s2) \<le> cap t" "maxload t = maxload s" "numkeys t + 1 \<le> N" for t k u
    proof -
      have "maxload s * of_int (cap s) * 2 ^ Suc m \<le> maxload t * of_int (cap t) * 2 ^ m"
        using load_bound_double [of "maxload s" "cap s" "cap t" m] sh that(2,3) c2
        by (simp add: shape_ok_def grow_def)
      with Suc.prems(3) have "of_int N \<le> maxload t * of_int (cap t) * 2 ^ m"
        by (rule order_trans)
      then show ?thesis using Suc.IH [OF that(1,4)] by blast
    qed
    have "\<exists>r. reinsert (put nh) (table s2) (grow s2) = Some r"
      using reinsert_returns [OF R put_post_holds, where st = "grow s2" and xs = "table s2"] wf_grow [of s2 nh] pl c2 sh
        Suc.prems(2) by (simp add: grow_def placed_ok_def shape_ok_def)
    then show ?thesis using load_test [OF c2(1)] by simp
  qed
  then show ?case by (subst put.simps) (rule put_returns_step [OF "Suc.prems"(1)])
qed

lemma load_doubling_exists:
  assumes "0 < ml" "0 < c"
  shows "\<exists>n. of_int N \<le> (ml :: rat) * of_int c * 2 ^ n"
proof -
  have mc: "0 < ml * of_int c" using assms by simp
  obtain n where n: "of_int N / (ml * of_int c) < of_nat n" using reals_Archimedean2 by blast
  have "(of_nat n :: rat) < 2 ^ n" using of_nat_less_two_power .
  with n have "of_int N / (ml * of_int c) < 2 ^ n" by linarith
  then have "of_int N < 2 ^ n * (ml * of_int c)" using mc by (simp add: pos_divide_less_eq)
  then show ?thesis by (intro exI [of _ n]) (simp add: algebra_simps)
qed

section \<open>Correctness of put\<close>

lemma put_returns:
  assumes "wf nh s"
  shows "\<exists>r. put nh s key v = Some r"
proof -
  have "0 < maxload s" "0 < cap s" using assms by (simp_all add: wf_def shape_ok_def)
  then obtain n where "of_int (numkeys s + 1) \<le> maxload s * of_int (cap s) * 2 ^ n"
    using load_doubling_exists by blast
  then show ?thesis using put_returns_within [OF assms] by blast
qed

text \<open>
  Claim C2: on a well-formed table \<^verbatim>\<open>put\<close> always returns: every loop of its
  body ends, and the rehash, which calls \<^verbatim>\<open>put\<close> again on every cell, ends too,
  because each nested rehash doubles the capacity and the number of cells in use never
  exceeds the count before the call plus one.
\<close>

theorem put_terminates:
  assumes "wf nh s"
  shows "\<exists>r. put nh s key v = Some r"
  using put_returns [OF assms] .

theorem put_terminates_witness:
  "wf (\<lambda>_. 0) sample_table \<and> (\<exists>r. put (\<lambda>_. 0) sample_table (KStr ''e'') (VInt 5) = Some r)"
  using sample_table_wf put_terminates [OF sample_table_wf] by blast

text \<open>
  Claim C1: on a well-formed table a \<^verbatim>\<open>put\<close> that returns leaves a well-formed
  table (so the load factor is at most \<^verbatim>\<open>maxload\<close>), and its effect on the abstract
  map is \<open>abs_put\<close>: the key is bound to the value when it was absent, and to the old value
  plus one when it was present.
\<close>

theorem put_refines:
  assumes "wf nh s" "put nh s key v = Some (Inr s')"
  shows "wf nh s' \<and> abs_put (abs_map (table s)) key v = Inr (abs_map (table s'))"
  using put_post_holds [OF assms] by (simp add: put_post_def)

theorem put_refines_witness:
  "wf (\<lambda>_. 0) sample_table \<and>
   (\<exists>s'. put (\<lambda>_. 0) sample_table (KStr ''e'') (VInt 5) = Some (Inr s') \<and>
     wf (\<lambda>_. 0) s' \<and> abs_map (table s') ''e'' = Some (VInt 5) \<and> abs_map (table s') ''i'' = Some (VInt 2))"
proof -
  obtain s' where p: "put (\<lambda>_. 0) sample_table (KStr ''e'') (VInt 5) = Some (Inr s')"
    by (simp add: py_eval)
  have r: "wf (\<lambda>_. 0) s' \<and> abs_put (abs_map (table sample_table)) (KStr ''e'') (VInt 5) = Inr (abs_map (table s'))"
    using put_refines [OF sample_table_wf p] .
  have "abs_map (table sample_table) ''e'' = None" "abs_map (table sample_table) ''i'' = Some (VInt 2)"
    by (simp_all add: abs_map_def py_eval)
  then have "abs_map (table s') = (abs_map (table sample_table))(''e'' \<mapsto> VInt 5)"
    using r by (simp add: abs_put_def)
  with r p sample_table_wf \<open>abs_map (table sample_table) ''i'' = Some (VInt 2)\<close> show ?thesis by auto
qed


section \<open>Consequences for the client\<close>

lemma put_post_abs_upd:
  "put_post nh s (KStr k) v s' \<Longrightarrow> abs_map (table s) k = None \<Longrightarrow>
   abs_map (table s') = (abs_map (table s))(k \<mapsto> v)"
  "put_post nh s (KStr k) v s' \<Longrightarrow> abs_map (table s) k = Some (VInt n) \<Longrightarrow>
   abs_map (table s') = (abs_map (table s))(k \<mapsto> VInt (n + 1))"
  by (simp_all add: put_post_def abs_put_def)

text \<open>
  Claim C16: on a well-formed table, a \<^verbatim>\<open>put\<close> of a key that is present with the value
  \<^verbatim>\<open>None\<close> raises (\<^verbatim>\<open>None + 1\<close> is a \<^verbatim>\<open>TypeError\<close>): it returns, and never normally.
\<close>

theorem put_none_value_raises:
  assumes "wf nh s" "abs_map (table s) k = Some VNone"
  shows "\<exists>e. put nh s (KStr k) v = Some (Inl e)"
proof -
  obtain r where r: "put nh s (KStr k) v = Some r" using put_returns [OF assms(1)] by blast
  have "\<not> (\<exists>s'. r = Inr s')"
  proof
    assume "\<exists>s'. r = Inr s'"
    then obtain s' where "r = Inr s'" by blast
    with put_post_holds [OF assms(1)] r have "put_post nh s (KStr k) v s'" by simp
    with assms(2) show False by (simp add: put_post_def abs_put_def)
  qed
  with r show ?thesis by (cases r) auto
qed

theorem put_none_value_raises_witness:
  "wf (\<lambda>_. 0) none_table \<and> abs_map (table none_table) ''a'' = Some VNone \<and>
   (\<exists>e. put (\<lambda>_. 0) none_table (KStr ''a'') (VInt 1) = Some (Inl e))"
proof -
  have w: "wf (\<lambda>_. 0) none_table" by (simp add: wf_eval py_eval)
  have a: "abs_map (table none_table) ''a'' = Some VNone"
    by (simp add: abs_map_def py_eval)
  show ?thesis using put_none_value_raises [OF w a] w a by blast
qed

text \<open>
  Claim C14: putting a key that the well-formed table does not hold and then reading it
  back returns the value that was put.
\<close>

theorem put_get_roundtrip:
  assumes "wf nh s" "abs_map (table s) k = None" "put nh s (KStr k) v = Some (Inr s')"
  shows "get nh s' (KStr k) = Some (Inr v)"
proof -
  have pp: "put_post nh s (KStr k) v s'" using put_post_holds [OF assms(1,3)] .
  then have w: "wf nh s'" by (simp add: put_post_def)
  have "abs_map (table s') k = Some v" using put_post_abs_upd(1) [OF pp assms(2)] by simp
  then show ?thesis using get_abs [OF w, of k] by simp
qed

theorem put_get_roundtrip_witness:
  "wf (\<lambda>_. 0) sample_table \<and> abs_map (table sample_table) ''e'' = None \<and>
   (\<exists>s'. put (\<lambda>_. 0) sample_table (KStr ''e'') VNone = Some (Inr s') \<and>
     get (\<lambda>_. 0) s' (KStr ''e'') = Some (Inr VNone))"
proof -
  have a: "abs_map (table sample_table) ''e'' = None" by (simp add: abs_map_def py_eval)
  obtain s' where p: "put (\<lambda>_. 0) sample_table (KStr ''e'') VNone = Some (Inr s')"
    by (simp add: py_eval)
  show ?thesis using put_get_roundtrip [OF sample_table_wf a p] sample_table_wf a p by blast
qed

end
