(* ===== verification/Hashmap_Run.thy ===== *)
theory Hashmap_Run
  imports Hashmap_Ops
begin

text \<open>
  Sequences of operations on one table, as a client issues them: a mutating call is a
  \<open>put\<close> or a \<open>remove\<close>, and a run stops at the first exception or at a call that
  never returns. The word-count driver of \<^verbatim>\<open>testMapFile\<close> (lines 224--228) is such a
  run, one \<^verbatim>\<open>put(word, 1)\<close> per word.
\<close>

datatype hm_op = OpPut pykey pyval | OpRemove pykey

fun apply_op :: "native_hash \<Rightarrow> hm_op \<Rightarrow> hashmap \<Rightarrow> hashmap pyres" where
  "apply_op nh (OpPut k v) s = put nh s k v"
| "apply_op nh (OpRemove k) s = remove nh s k"

fun run_ops :: "native_hash \<Rightarrow> hm_op list \<Rightarrow> hashmap \<Rightarrow> hashmap pyres" where
  "run_ops nh [] s = Some (Inr s)"
| "run_ops nh (op # ops) s = pbind (apply_op nh op s) (run_ops nh ops)"

text \<open>
  The inner loop of \<^verbatim>\<open>testMapFile\<close> for one table: each non-empty word is put with
  the value 1. Tokenising the line and lower-casing the words are not modelled: the words
  arrive as a list.
\<close>

definition put_words :: "native_hash \<Rightarrow> string list \<Rightarrow> hashmap \<Rightarrow> hashmap pyres" where
  "put_words nh ws s = run_ops nh (map (\<lambda>w. OpPut (KStr w) (VInt 1)) (filter (\<lambda>w. w \<noteq> []) ws)) s"

declare put_words_def [py_eval]

lemma run_ops_append:
  "run_ops nh (xs @ ys) s = pbind (run_ops nh xs s) (run_ops nh ys)"
proof (induction xs arbitrary: s)
  case Nil
  then show ?case by simp
next
  case (Cons op xs)
  have "run_ops nh (xs @ ys) = (\<lambda>s'. pbind (run_ops nh xs s') (run_ops nh ys))"
    using Cons.IH by (rule ext)
  then show ?case by (simp add: pbind_assoc cong del: pbind_cong_weak)
qed

end
