(* ===== verification/Hashmap_Machine.thy ===== *)
theory Hashmap_Machine
  imports Hashmap_Insert Hashmap_Run
begin

text \<open>
  The table as a state machine. A client creates it with \<^verbatim>\<open>Hashmap(inittype, initsz,
  maxload)\<close> and then issues \<^verbatim>\<open>put\<close> and \<^verbatim>\<open>remove\<close> calls with string keys
  (\<open>user_op\<close>); \<open>reachable\<close> is the set of states such a history can leave. The
  invariant \<open>wf\<close> holds in every reachable state, so the load factor never exceeds
  \<^verbatim>\<open>maxload\<close> there. A run of operations (\<open>run_ops\<close>) always returns, and when
  it returns normally its effect on the abstract map is the run of the abstract operations.
  The word loop of \<^verbatim>\<open>testMapFile\<close> is such a run; because \<^verbatim>\<open>put\<close> increments a
  present key, it leaves in the table the number of occurrences of every word.
\<close>

section \<open>Client operations and the abstract machine\<close>

fun user_op :: "hm_op \<Rightarrow> bool" where
  "user_op (OpPut (KStr k) v) = True"
| "user_op (OpRemove (KStr k)) = True"
| "user_op _ = False"

fun abs_op :: "hm_op \<Rightarrow> (string \<rightharpoonup> pyval) \<Rightarrow> error + (string \<rightharpoonup> pyval)" where
  "abs_op (OpPut key v) m = abs_put m key v"
| "abs_op (OpRemove (KStr k)) m = Inr (m(k := None))"
| "abs_op (OpRemove KDel) m = Inr m"

fun abs_run :: "hm_op list \<Rightarrow> (string \<rightharpoonup> pyval) \<Rightarrow> error + (string \<rightharpoonup> pyval)" where
  "abs_run [] m = Inr m"
| "abs_run (op # ops) m = sbind (abs_op op m) (abs_run ops)"

inductive reachable :: "native_hash \<Rightarrow> hashmap \<Rightarrow> bool" for nh :: native_hash where
  init: "0 < c \<Longrightarrow> 0 < ml \<Longrightarrow> ml < 1 \<Longrightarrow> reachable nh (hashmap_init t c ml)"
| step: "reachable nh s \<Longrightarrow> user_op op \<Longrightarrow> apply_op nh op s = Some (Inr s') \<Longrightarrow> reachable nh s'"

text \<open>The number of times a word occurs in the word stream, empty words dropped.\<close>

definition word_count :: "string list \<Rightarrow> string \<Rightarrow> nat" where
  "word_count ws w = count_list (filter (\<lambda>w. w \<noteq> []) ws) w"

text \<open>
  Three tables that runs of client calls leave under strategy 1 with capacity 4: the keys
  \<^verbatim>\<open>"b"\<close> and \<^verbatim>\<open>"f"\<close> at the end of the array (\<open>skip_table\<close>), the key
  \<^verbatim>\<open>"g"\<close> stored at 0 after wrapping from its home index 3 (\<open>wrap_table\<close>), and
  a tombstone left by a remove (\<open>tomb_table\<close>).
\<close>

definition skip_table :: hashmap where
  "skip_table =
     \<lparr>table = [Empty, Empty, Entry (KStr ''b'') (VInt 1), Entry (KStr ''f'') (VInt 1)],
      numkeys = 2, cap = 4, maxload = 7 / 10, hashtype = 1, probe = 1, collision = 1\<rparr>"

definition wrap_table :: hashmap where
  "wrap_table =
     \<lparr>table = [Entry (KStr ''g'') (VInt 1), Empty, Empty, Entry (KStr ''c'') (VInt 1)],
      numkeys = 2, cap = 4, maxload = 7 / 10, hashtype = 1, probe = 1, collision = 1\<rparr>"

definition tomb_table :: hashmap where
  "tomb_table =
     \<lparr>table = [Empty, DELETED, Entry (KStr ''b'') (VInt 1), Empty],
      numkeys = 2, cap = 4, maxload = 7 / 10, hashtype = 1, probe = 0, collision = 0\<rparr>"

declare skip_table_def [py_eval] wrap_table_def [py_eval] tomb_table_def [py_eval]

section \<open>One operation\<close>

lemma wf_init:
  assumes "0 < c" "0 < ml" "ml < 1"
  shows "wf nh (hashmap_init t c ml)"
proof -
  have "keys_ok nh (hashmap_init t c ml)"
    by (rule keys_okI) (auto simp: hashmap_init_def unique_keys_def same_live_key_iff)
  then show ?thesis using assms by (simp add: wf_def shape_ok_def hashmap_init_def)
qed

lemma abs_init [simp]: "abs_map (table (hashmap_init t c ml)) = Map.empty"
  by (simp add: hashmap_init_def abs_map_def)

lemma apply_op_post:
  assumes "wf nh s" "user_op op" "apply_op nh op s = Some (Inr s')"
  shows "wf nh s' \<and> abs_op op (abs_map (table s)) = Inr (abs_map (table s'))"
proof (cases op)
  case (OpPut key v)
  with assms show ?thesis using put_post_holds [of nh s key v s'] by (simp add: put_post_def)
next
  case (OpRemove key)
  with assms(2) obtain k where k: "key = KStr k" by (cases key) auto
  with OpRemove assms remove_post [OF assms(1), of k] show ?thesis by auto
qed

lemma apply_op_returns:
  assumes "wf nh s" "user_op op"
  shows "\<exists>r. apply_op nh op s = Some r"
proof (cases op)
  case (OpPut key v)
  then show ?thesis using put_returns [OF assms(1)] by simp
next
  case (OpRemove key)
  with assms(2) obtain k where "key = KStr k" by (cases key) auto
  with OpRemove remove_post [OF assms(1), of k] show ?thesis by auto
qed

lemma run_ops_post:
  "wf nh s \<Longrightarrow> list_all user_op ops \<Longrightarrow>
   \<exists>r. run_ops nh ops s = Some r \<and>
     (\<forall>s'. r = Inr s' \<longrightarrow> wf nh s' \<and> abs_run ops (abs_map (table s)) = Inr (abs_map (table s')))"
proof (induction ops arbitrary: s)
  case Nil
  then show ?case by simp
next
  case (Cons op ops)
  obtain r where r: "apply_op nh op s = Some r" using apply_op_returns Cons.prems by fastforce
  show ?case
  proof (cases r)
    case (Inl e)
    with r show ?thesis by simp
  next
    case (Inr s1)
    with apply_op_post r Cons.prems have s1: "wf nh s1"
      "abs_op op (abs_map (table s)) = Inr (abs_map (table s1))" by auto
    with Cons.IH [of s1] Cons.prems r Inr show ?thesis by auto
  qed
qed

lemma reachable_inv:
  "reachable nh s \<Longrightarrow> wf nh s"
proof (induction rule: reachable.induct)
  case (init c ml t)
  then show ?case by (rule wf_init)
next
  case (step s op s')
  then show ?case using apply_op_post by blast
qed

lemma run_ops_reachable:
  "reachable nh s \<Longrightarrow> list_all user_op ops \<Longrightarrow> run_ops nh ops s = Some (Inr s') \<Longrightarrow> reachable nh s'"
proof (induction ops arbitrary: s)
  case (Cons op ops)
  then obtain s1 where "apply_op nh op s = Some (Inr s1)" "run_ops nh ops s1 = Some (Inr s')"
    by (auto simp: pbind_eq_Some_Inr_iff)
  with Cons show ?case by (auto intro: reachable.step)
qed simp

lemma abs_run_words:
  "abs_run (map (\<lambda>w. OpPut (KStr w) (VInt 1)) ws) (map_option VInt \<circ> c0) =
   Inr (map_option VInt \<circ> (\<lambda>w. case c0 w of
          None \<Rightarrow> if count_list ws w = 0 then None else Some (int (count_list ws w))
        | Some n \<Rightarrow> Some (n + int (count_list ws w))))"
proof (induction ws arbitrary: c0)
  case Nil
  show ?case by (simp add: fun_eq_iff split: option.splits)
next
  case (Cons w ws)
  let ?c1 = "c0(w \<mapsto> (case c0 w of None \<Rightarrow> 1 | Some n \<Rightarrow> n + 1))"
  have "abs_put (map_option VInt \<circ> c0) (KStr w) (VInt 1) = Inr (map_option VInt \<circ> ?c1)"
    by (cases "c0 w") (auto simp: abs_put_def fun_eq_iff)
  then have "abs_run (map (\<lambda>w. OpPut (KStr w) (VInt 1)) (w # ws)) (map_option VInt \<circ> c0) =
      abs_run (map (\<lambda>w. OpPut (KStr w) (VInt 1)) ws) (map_option VInt \<circ> ?c1)"
    by (simp only: list.map abs_run.simps abs_op.simps sbind_simps)
  also have "\<dots> = Inr (map_option VInt \<circ> (\<lambda>x. case ?c1 x of
          None \<Rightarrow> if count_list ws x = 0 then None else Some (int (count_list ws x))
        | Some n \<Rightarrow> Some (n + int (count_list ws x))))"
    by (rule Cons.IH)
  also have "(\<lambda>x. case ?c1 x of
          None \<Rightarrow> if count_list ws x = 0 then None else Some (int (count_list ws x))
        | Some n \<Rightarrow> Some (n + int (count_list ws x))) =
      (\<lambda>x. case c0 x of
          None \<Rightarrow> if count_list (w # ws) x = 0 then None else Some (int (count_list (w # ws) x))
        | Some n \<Rightarrow> Some (n + int (count_list (w # ws) x)))"
    by (rule ext) (auto split: option.splits)
  finally show ?case .
qed

section \<open>The machine's properties\<close>

text \<open>
  Claim C6: every state that a history of client calls can leave, starting from a table
  created with a positive capacity and a load factor in (0, 1), is well-formed, its load
  factor is at most \<^verbatim>\<open>maxload\<close>, and it keeps a free cell, so that every linear scan
  ends.
\<close>

theorem reachable_wf:
  assumes "reachable nh s"
  shows "wf nh s \<and> of_int (numkeys s) \<le> maxload s * of_int (cap s) \<and>
    (\<exists>p<length (table s). table s ! p = Empty)"
proof -
  have "wf nh s" using reachable_inv [OF assms] .
  then show ?thesis using shape_ok_free_cell [of s] by (simp add: wf_def shape_ok_def)
qed

theorem reachable_wf_witness:
  "reachable (\<lambda>_. 0) (hashmap_init 1 4 (7 / 10)) \<and> wf (\<lambda>_. 0) (hashmap_init 1 4 (7 / 10))"
proof -
  have r: "reachable (\<lambda>_. 0) (hashmap_init 1 4 (7 / 10))" by (rule reachable.init) simp_all
  show ?thesis using r reachable_wf [OF r] by blast
qed

text \<open>
  Claim C7: from a reachable state, a run of client calls always returns; when it returns
  normally, the state is reachable and the run's effect on the abstract map is the run of
  the abstract operations.
\<close>

theorem run_ops_correct:
  assumes "reachable nh s" "list_all user_op ops"
  shows "\<exists>r. run_ops nh ops s = Some r \<and>
     (\<forall>s'. r = Inr s' \<longrightarrow> reachable nh s' \<and> abs_run ops (abs_map (table s)) = Inr (abs_map (table s')))"
  using run_ops_post [OF reachable_inv [OF assms(1)] assms(2)] run_ops_reachable [OF assms] by blast

theorem run_ops_correct_witness:
  "reachable (\<lambda>_. 0) (hashmap_init 1 4 (7 / 10)) \<and>
   (\<exists>s'. run_ops (\<lambda>_. 0) [OpPut (KStr ''a'') (VInt 1), OpPut (KStr ''b'') (VInt 1), OpRemove (KStr ''a'')]
          (hashmap_init 1 4 (7 / 10)) = Some (Inr s') \<and> reachable (\<lambda>_. 0) s' \<and>
        abs_run [OpPut (KStr ''a'') (VInt 1), OpPut (KStr ''b'') (VInt 1), OpRemove (KStr ''a'')] Map.empty =
          Inr (abs_map (table s')))"
proof -
  have r: "reachable (\<lambda>_. 0) (hashmap_init 1 4 (7 / 10))" by (rule reachable.init) simp_all
  have u: "list_all user_op [OpPut (KStr ''a'') (VInt 1), OpPut (KStr ''b'') (VInt 1), OpRemove (KStr ''a'')]"
    by simp
  obtain s' where e: "run_ops (\<lambda>_. 0) [OpPut (KStr ''a'') (VInt 1), OpPut (KStr ''b'') (VInt 1), OpRemove (KStr ''a'')]
          (hashmap_init 1 4 (7 / 10)) = Some (Inr s')"
    by (simp add: py_eval)
  show ?thesis using run_ops_correct [OF r u] r e by auto
qed

lemma put_words_abs:
  assumes "0 < c" "0 < ml" "ml < 1"
  shows "\<exists>r. put_words nh ws (hashmap_init t c ml) = Some r \<and>
    (\<forall>s'. r = Inr s' \<longrightarrow> (\<forall>w. abs_map (table s') w =
       (if word_count ws w = 0 then None else Some (VInt (int (word_count ws w))))))"
proof -
  let ?ws = "filter (\<lambda>w. w \<noteq> []) ws"
  let ?ops = "map (\<lambda>w. OpPut (KStr w) (VInt 1)) ?ws"
  have u: "list_all user_op ?ops" by (simp add: list_all_iff)
  obtain r where r: "run_ops nh ?ops (hashmap_init t c ml) = Some r"
    and post0: "\<forall>s'. r = Inr s' \<longrightarrow> wf nh s' \<and>
      abs_run ?ops (abs_map (table (hashmap_init t c ml))) = Inr (abs_map (table s'))"
    using run_ops_post [OF wf_init [OF assms, of nh t] u] by blast
  then have post: "\<forall>s'. r = Inr s' \<longrightarrow> abs_run ?ops Map.empty = Inr (abs_map (table s'))"
    by simp
  have "(Map.empty :: string \<rightharpoonup> pyval) = map_option VInt \<circ> Map.empty" by (simp add: fun_eq_iff)
  then have A: "abs_run ?ops Map.empty =
      Inr (\<lambda>w. if count_list ?ws w = 0 then None else Some (VInt (int (count_list ?ws w))))"
    using abs_run_words [of ?ws Map.empty] by (simp add: comp_def fun_eq_iff)
  show ?thesis
  proof (intro exI conjI allI impI)
    show "put_words nh ws (hashmap_init t c ml) = Some r" using r by (simp add: put_words_def)
    fix s' w assume "r = Inr s'"
    with post have e: "abs_run ?ops Map.empty = Inr (abs_map (table s'))" by blast
    have "Inr (abs_map (table s')) = abs_run ?ops Map.empty" by (rule e [symmetric])
    also note A
    finally have "abs_map (table s') =
        (\<lambda>w. if count_list ?ws w = 0 then None else Some (VInt (int (count_list ?ws w))))"
      by (simp only: sum.inject)
    then show "abs_map (table s') w =
        (if word_count ws w = 0 then None else Some (VInt (int (word_count ws w))))"
      by (simp add: word_count_def)
  qed
qed

text \<open>
  Claim C8: the word loop of \<^verbatim>\<open>testMapFile\<close>, run on a freshly created table,
  always returns; when it returns normally the table maps every word of the stream to the
  number of its occurrences and holds no other key. The count comes from \<^verbatim>\<open>put\<close>
  incrementing a present key.
\<close>

theorem put_words_counts:
  assumes "0 < c" "0 < ml" "ml < 1"
  shows "\<exists>r. put_words nh ws (hashmap_init t c ml) = Some r \<and>
    (\<forall>s'. r = Inr s' \<longrightarrow> (\<forall>w. abs_map (table s') w =
       (if word_count ws w = 0 then None else Some (VInt (int (word_count ws w))))))"
  using put_words_abs [OF assms] .

theorem put_words_counts_witness:
  "\<exists>s'. put_words (\<lambda>_. 0) [''to'', ''be'', '''', ''to''] (hashmap_init 1 4 (7 / 10)) = Some (Inr s') \<and>
     abs_map (table s') ''to'' = Some (VInt 2) \<and> abs_map (table s') '''' = None"
proof -
  obtain s' where r: "put_words (\<lambda>_. 0) [''to'', ''be'', '''', ''to''] (hashmap_init 1 4 (7 / 10)) = Some (Inr s')"
    by (simp add: py_eval)
  have post: "\<forall>w. abs_map (table s') w =
       (if word_count [''to'', ''be'', '''', ''to''] w = 0 then None
        else Some (VInt (int (word_count [''to'', ''be'', '''', ''to''] w))))"
    using put_words_counts [where c = 4 and ml = "7 / 10" and nh = "\<lambda>_. 0" and
      ws = "[''to'', ''be'', '''', ''to'']" and t = 1] r by auto
  have "word_count [''to'', ''be'', '''', ''to''] ''to'' = 2" "word_count [''to'', ''be'', '''', ''to''] '''' = 0"
    by (simp_all add: word_count_def)
  with r post show ?thesis by auto
qed

section \<open>Error paths of the code\<close>

lemma incr_loop_fall:
  assumes occ: "\<And>j. a \<le> j \<Longrightarrow> j < length tbl \<Longrightarrow> occupied_other (tbl ! j) key" and a: "a \<le> length tbl"
  shows "incr_loop tbl key w (int (length tbl)) (int a) = Inr (IncrFall (int (length tbl)))"
  using a
proof (induction rule: inc_induct)
  case base
  then show ?case by (simp add: incr_loop.simps)
next
  case (step n)
  obtain k' v' where c: "tbl ! n = Entry k' v'" "k' \<noteq> key"
    using occ [of n] step.hyps(1,2) by (cases "tbl ! n") auto
  have "incr_loop tbl key w (int (length tbl)) (int n) = incr_loop tbl key w (int (length tbl)) (int (Suc n))"
    using step.hyps(2) c by (subst incr_loop.simps) (simp add: add.commute)
  with step.IH show ?case by simp
qed

lemma live_cell_abs:
  "unique_keys tbl \<Longrightarrow> p < length tbl \<Longrightarrow> tbl ! p = Entry (KStr k) u \<Longrightarrow> abs_map tbl k = Some u"
  using abs_map_Some_iff by blast

lemma put_KDel: "hashtype s \<noteq> 0 \<Longrightarrow> put nh s KDel v = Some (Inl TypeError)"
  by (subst put.simps) (simp add: put_prelude_def start_index_def hash_index_KDel)

text \<open>
  Claim C21: the skipping step of the scan of \<^verbatim>\<open>put\<close> (lines 72--74) leaves the
  array. On any well-formed table, a \<^verbatim>\<open>put\<close> of an absent key whose home index is
  \<^verbatim>\<open>cap - 2\<close>, when the last two cells are occupied, steps from \<^verbatim>\<open>cap - 2\<close> over
  \<^verbatim>\<open>cap - 1\<close> to \<^verbatim>\<open>cap\<close> without wrapping and raises \<^verbatim>\<open>IndexError\<close>, however
  many cells are free.
\<close>

theorem put_scan_skip_index_error:
  assumes wf: "wf nh s" and ab: "abs_map (table s) k = None"
    and h: "home nh s k + 2 = length (table s)"
    and o: "table s ! home nh s k \<noteq> Empty" "table s ! (home nh s k + 1) \<noteq> Empty"
  shows "put nh s (KStr k) v = Some (Inl IndexError)"
proof -
  let ?t = "table s" and ?a = "home nh s k"
  have uk: "unique_keys ?t" using wf by (simp add: wf_def keys_ok_def)
  obtain i where i: "i < length ?t" "probe_find ?t (KStr k) (cap s) (int ?a) = Some (Inr (int i))"
      "?t ! i = Empty"
    using probe_find_wf [OF wf, of k] ab by auto
  have pre: "put_prelude nh s (KStr k) v =
      Some (Inr (Inr (s\<lparr>probe := probe s + 1, collision := collision s + 1\<rparr>, int ?a, v)))"
    using prelude_absent [OF wf_start_index [OF wf] _ o(1) i] h by simp
  have oa: "occupied_other (?t ! ?a) (KStr k)"
    using o(1) live_cell_abs [OF uk, of ?a k] ab h by (cases "?t ! ?a") auto
  have "put_probe ?t (KStr k) (int ?a) None pr = Some (Inl IndexError)" for pr
  proof -
    have n: "nat (int ?a + 1) = Suc ?a" by arith
    show ?thesis using oa o(2) h by (subst put_probe.simps) (simp add: Let_def n put_probe_past_end)
  qed
  then show ?thesis using pre by (subst put.simps) simp
qed

theorem put_scan_skip_index_error_witness:
  "run_ops (\<lambda>_. 0) [OpPut (KStr ''b'') (VInt 1), OpPut (KStr ''f'') (VInt 1)] (hashmap_init 1 4 (7 / 10)) =
     Some (Inr skip_table) \<and>
   wf (\<lambda>_. 0) skip_table \<and> abs_map (table skip_table) ''j'' = None \<and>
   home (\<lambda>_. 0) skip_table ''j'' + 2 = length (table skip_table) \<and>
   table skip_table ! home (\<lambda>_. 0) skip_table ''j'' \<noteq> Empty \<and>
   table skip_table ! (home (\<lambda>_. 0) skip_table ''j'' + 1) \<noteq> Empty \<and>
   table skip_table ! 0 = Empty \<and>
   put (\<lambda>_. 0) skip_table (KStr ''j'') (VInt 1) = Some (Inl IndexError)"
proof -
  have r: "run_ops (\<lambda>_. 0) [OpPut (KStr ''b'') (VInt 1), OpPut (KStr ''f'') (VInt 1)] (hashmap_init 1 4 (7 / 10)) =
     Some (Inr skip_table)" by (simp add: skip_table_def py_eval)
  have w: "wf (\<lambda>_. 0) skip_table" by (simp add: skip_table_def wf_eval py_eval)
  have a: "abs_map (table skip_table) ''j'' = None" by (simp add: skip_table_def abs_map_def)
  have h: "home (\<lambda>_. 0) skip_table ''j'' = 2" by (simp add: skip_table_def home_def py_eval str_digest_def)
  have c: "length (table skip_table) = 4" "table skip_table ! 2 \<noteq> Empty" "table skip_table ! 3 \<noteq> Empty"
    "table skip_table ! 0 = Empty" by (simp_all add: skip_table_def)
  show ?thesis using put_scan_skip_index_error [OF w a] r w a h c by simp
qed

text \<open>
  Claim C22: the increment loop of \<^verbatim>\<open>put\<close> (lines 56--60) does not wrap. On any
  well-formed table, a \<^verbatim>\<open>put\<close> of a key stored with an integer value at an index
  below its home index (it was placed after wrapping) is found by \<^verbatim>\<open>contains\<close>, the
  increment loop runs from the home index to \<^verbatim>\<open>cap\<close> without meeting it, and the scan
  that follows at index \<^verbatim>\<open>cap\<close> raises \<^verbatim>\<open>IndexError\<close>.
\<close>

theorem put_increment_wrap_index_error:
  assumes wf: "wf nh s" and c: "c < home nh s k" "table s ! c = Entry (KStr k) (VInt n)"
  shows "put nh s (KStr k) v = Some (Inl IndexError)"
proof -
  let ?t = "table s" and ?a = "home nh s k"
  let ?N = "length ?t"
  have sh: "shape_ok s" and ks: "keys_ok nh s" and uk: "unique_keys ?t"
    using wf by (auto simp: wf_def keys_ok_def)
  have aN: "?a < ?N" using home_lt_length [OF sh] .
  with c have cN: "c < ?N" by simp
  have ab: "abs_map ?t k = Some (VInt n)" using live_cell_abs [OF uk cN c(2)] .
  obtain i where i: "i < ?N" "probe_find ?t (KStr k) (cap s) (int ?a) = Some (Inr (int i))"
      "?t ! i = Entry (KStr k) (VInt n)"
    using probe_find_wf [OF wf, of k] ab by auto
  have ic: "i = c" using unique_keysD [OF uk i(1) cN i(3) c(2)] .
  have occ: "occupied_other (?t ! j) (KStr k)" if "?a \<le> j" "j < ?N" for j
  proof -
    have "j - ?a < cdist ?N ?a c" using that c(1) by (simp add: cdist_def)
    moreover have "0 < ?N" using aN by linarith
    ultimately have "occupied_other (?t ! ((?a + (j - ?a)) mod ?N)) (KStr k)"
      using chain_cells_other [OF ks _ refl aN cN c(2)] by blast
    then show ?thesis using that by simp
  qed
  have ne: "?t ! ?a \<noteq> Empty" using occ [OF order.refl aN] by auto
  have len: "cap s = int ?N" using shape_ok_len [OF sh] by simp
  have il: "incr_loop ?t (KStr k) (VInt (n + 1)) (cap s) (int ?a) = Inr (IncrFall (int ?N))"
    using incr_loop_fall [OF occ, of ?a] aN len by simp
  have pre: "put_prelude nh s (KStr k) v = Some (Inr (Inr (s\<lparr>probe := probe s + 1\<rparr>, int ?N, VInt (n + 1))))"
    using prelude_found [OF wf_start_index [OF wf] aN ne cN _ c(2) il] i(2) ic by simp
  show ?thesis using pre by (subst put.simps) (simp add: put_probe_past_end)
qed

theorem put_increment_wrap_index_error_witness:
  "run_ops (\<lambda>_. 0) [OpPut (KStr ''c'') (VInt 1), OpPut (KStr ''g'') (VInt 1)] (hashmap_init 1 4 (7 / 10)) =
     Some (Inr wrap_table) \<and>
   wf (\<lambda>_. 0) wrap_table \<and> 0 < home (\<lambda>_. 0) wrap_table ''g'' \<and>
   table wrap_table ! 0 = Entry (KStr ''g'') (VInt 1) \<and>
   put (\<lambda>_. 0) wrap_table (KStr ''g'') (VInt 1) = Some (Inl IndexError)"
proof -
  have r: "run_ops (\<lambda>_. 0) [OpPut (KStr ''c'') (VInt 1), OpPut (KStr ''g'') (VInt 1)] (hashmap_init 1 4 (7 / 10)) =
     Some (Inr wrap_table)" by (simp add: wrap_table_def py_eval)
  have w: "wf (\<lambda>_. 0) wrap_table" by (simp add: wrap_table_def wf_eval py_eval)
  have h: "0 < home (\<lambda>_. 0) wrap_table ''g''" by (simp add: wrap_table_def home_def py_eval str_digest_def)
  have c: "table wrap_table ! 0 = Entry (KStr ''g'') (VInt 1)" by (simp add: wrap_table_def)
  show ?thesis using put_increment_wrap_index_error [OF w h c] r w h c by simp
qed

text \<open>
  Claim C23: the rehash loop (lines 92--94) reinserts tombstones. Under strategy 1 or 2,
  on any well-formed target table, reinserting an array that holds \<^verbatim>\<open>DELETED\<close>
  never completes normally: it ends with an exception, at the latest the
  \<^verbatim>\<open>TypeError\<close> of \<^verbatim>\<open>len()\<close> on the tombstone's key.
\<close>

theorem rehash_tombstone_type_error:
  assumes "wf nh t" "hashtype t \<noteq> 0" "DELETED \<in> set xs"
  shows "\<exists>e. reinsert (\<lambda>s k v. put nh s k v) xs t = Some (Inl e)"
  using assms
proof (induction xs arbitrary: t)
  case (Cons x xs)
  show ?case
  proof (cases x)
    case Empty
    with Cons show ?thesis by (simp add: DELETED_def)
  next
    case (Entry k v)
    show ?thesis
    proof (cases "k = KDel")
      case True
      with Entry put_KDel [OF Cons.prems(2)] show ?thesis by simp
    next
      case False
      with Entry Cons.prems(3) have d: "DELETED \<in> set xs" by (auto simp: DELETED_def)
      obtain r where r: "put nh t k v = Some r" using put_returns [OF Cons.prems(1)] by blast
      show ?thesis
      proof (cases r)
        case (Inl e)
        with r Entry show ?thesis by simp
      next
        case (Inr t')
        with r put_post_holds [OF Cons.prems(1)] have "wf nh t'" "hashtype t' = hashtype t"
          by (simp_all add: put_post_def)
        with Cons.IH [of t'] Cons.prems(2) d r Inr Entry show ?thesis by simp
      qed
    qed
  qed
qed simp

theorem rehash_tombstone_type_error_witness:
  "run_ops (\<lambda>_. 0) [OpPut (KStr ''a'') (VInt 1), OpRemove (KStr ''a''), OpPut (KStr ''b'') (VInt 1)]
     (hashmap_init 1 4 (7 / 10)) = Some (Inr tomb_table) \<and>
   wf (\<lambda>_. 0) (grow tomb_table) \<and> hashtype (grow tomb_table) \<noteq> 0 \<and> DELETED \<in> set (table tomb_table) \<and>
   (\<exists>e. reinsert (\<lambda>s k v. put (\<lambda>_. 0) s k v) (table tomb_table) (grow tomb_table) = Some (Inl e)) \<and>
   put (\<lambda>_. 0) tomb_table (KStr ''c'') (VInt 1) = Some (Inl TypeError)"
proof -
  have r: "run_ops (\<lambda>_. 0) [OpPut (KStr ''a'') (VInt 1), OpRemove (KStr ''a''), OpPut (KStr ''b'') (VInt 1)]
     (hashmap_init 1 4 (7 / 10)) = Some (Inr tomb_table)" by (simp add: tomb_table_def py_eval)
  have w: "wf (\<lambda>_. 0) (grow tomb_table)" by (rule wf_grow) (simp_all add: tomb_table_def)
  have h: "hashtype (grow tomb_table) \<noteq> 0" by (simp add: tomb_table_def grow_def)
  have d: "DELETED \<in> set (table tomb_table)" by (simp add: tomb_table_def)
  have p: "put (\<lambda>_. 0) tomb_table (KStr ''c'') (VInt 1) = Some (Inl TypeError)"
    by (simp add: tomb_table_def py_eval)
  show ?thesis using rehash_tombstone_type_error [OF w h d] r w h d p by blast
qed

end
