(* ===== verification/Hashmap_FindMax.thy ===== *)
theory Hashmap_FindMax
  imports Hashmap_State
begin

text \<open>
  \<^verbatim>\<open>findMax\<close> (\<^verbatim>\<open>src/hashmap.py\<close> lines 202--217), the reporting routine of the
  driver: it scans the slot array once, keeping the largest value seen so far (starting
  from 1) and the key that holds it (starting from the cell \<^verbatim>\<open>table[0]\<close> itself, not a
  key). A tombstone, or any entry whose value is \<^verbatim>\<open>None\<close>, makes the comparison
  \<^verbatim>\<open>None > max\<close> raise \<^verbatim>\<open>TypeError\<close>. On a table without such entries the loop
  computes \<open>max_entry\<close>: the largest of 1 and the values, and the first key that holds it
  when it exceeds 1.
\<close>

section \<open>The routine\<close>

text \<open>\<^verbatim>\<open>wordMax\<close>: the initial cell \<^verbatim>\<open>table[0]\<close>, or a key found by the scan.\<close>

datatype fm_word = FMCell slot | FMKey pykey

function findmax_loop :: "slot list \<Rightarrow> int \<Rightarrow> int \<Rightarrow> int \<Rightarrow> fm_word \<Rightarrow> error + fm_word \<times> int" where
  "findmax_loop tbl c index mx wm =
     (if index = c then Inr (wm, mx)
      else (case py_nth tbl index of
              Inl e \<Rightarrow> Inl e
            | Inr Empty \<Rightarrow> findmax_loop tbl c (index + 1) mx wm
            | Inr (Entry k VNone) \<Rightarrow> Inl TypeError
            | Inr (Entry k (VInt n)) \<Rightarrow>
                if n > mx then findmax_loop tbl c (index + 1) n (FMKey k)
                else findmax_loop tbl c (index + 1) mx wm))"
  by pat_completeness auto
termination
  by (relation "measure (\<lambda>(tbl, c, index, mx, wm). nat (int (length tbl) - index))")
     (auto dest: py_nth_Inr_lt)

declare findmax_loop.simps [simp del, py_eval]

definition findMax :: "hashmap \<Rightarrow> error + fm_word \<times> int" where
  "findMax s = sbind (py_nth (table s) 0) (\<lambda>sl. findmax_loop (table s) (cap s) 0 1 (FMCell sl))"

declare findMax_def [py_eval]

section \<open>The reference\<close>

fun cell_val :: "slot \<Rightarrow> int option" where
  "cell_val (Entry k (VInt n)) = Some n"
| "cell_val _ = None"

definition max_entry :: "slot list \<Rightarrow> int \<Rightarrow> fm_word \<Rightarrow> fm_word \<times> int" where
  "max_entry tbl m w =
     (let M = Max (insert m (set (List.map_filter cell_val tbl)))
      in if M = m then (w, m)
         else (case find (\<lambda>sl. cell_val sl = Some M) tbl of
                 Some (Entry k v) \<Rightarrow> (FMKey k, M)
               | _ \<Rightarrow> (w, M)))"

text \<open>A table of counts, as the word loop leaves it, with a tie for the largest count.\<close>

definition count_table :: hashmap where
  "count_table =
     \<lparr>table = [Entry (KStr ''to'') (VInt 2), Empty, Entry (KStr ''be'') (VInt 3), Entry (KStr ''or'') (VInt 3)],
      numkeys = 3, cap = 4, maxload = 7 / 10, hashtype = 1, probe = 0, collision = 0\<rparr>"

declare cell_val.simps [py_eval] max_entry_def [py_eval] count_table_def [py_eval]

section \<open>The loop computes the reference\<close>

lemma Max_insert_insert:
  "finite R \<Longrightarrow> Max (insert a (insert b R)) = Max (insert (max a b) (R :: int set))"
  by (cases "R = {}") (simp_all add: max.assoc)

lemma max_entry_Empty: "max_entry (Empty # r) m w = max_entry r m w"
  by (simp add: max_entry_def Let_def map_filter_simps)

lemma find_cell_val:
  "x \<in> set (List.map_filter cell_val r) \<Longrightarrow>
   \<exists>k. find (\<lambda>sl. cell_val sl = Some x) r = Some (Entry k (VInt x))"
proof (induction r)
  case (Cons sl r)
  then show ?case by (cases sl rule: cell_val.cases) (auto simp: map_filter_simps)
qed (simp add: map_filter_def)

lemma max_entry_le:
  assumes "n \<le> m"
  shows "max_entry (Entry k (VInt n) # r) m w = max_entry r m w"
proof -
  let ?R = "set (List.map_filter cell_val r)"
  have M: "Max (insert m (insert n ?R)) = Max (insert m ?R)"
    using Max_insert_insert [of ?R m n] assms by (simp add: max_def)
  have "m \<le> Max (insert m ?R)" by simp
  then have "Max (insert m ?R) \<noteq> m \<Longrightarrow> n \<noteq> Max (insert m ?R)" using assms by linarith
  then show ?thesis using M by (simp add: max_entry_def Let_def map_filter_simps)
qed

lemma max_entry_gt:
  assumes "m < n"
  shows "max_entry (Entry k (VInt n) # r) m w = max_entry r n (FMKey k)"
proof -
  let ?R = "set (List.map_filter cell_val r)"
  have M: "Max (insert m (insert n ?R)) = Max (insert n ?R)"
    using Max_insert_insert [of ?R m n] assms by (simp add: max_def)
  let ?M = "Max (insert n ?R)"
  have "n \<le> ?M" by simp
  then have Mm: "?M \<noteq> m" using assms by linarith
  show ?thesis
  proof (cases "?M = n")
    case True
    with M Mm show ?thesis by (simp add: max_entry_def Let_def map_filter_simps)
  next
    case False
    have "?M \<in> insert n ?R" by (rule Max_in) simp_all
    with False have "?M \<in> ?R" by simp
    then obtain k' where "find (\<lambda>sl. cell_val sl = Some ?M) r = Some (Entry k' (VInt ?M))"
      using find_cell_val by blast
    with M Mm False show ?thesis by (simp add: max_entry_def Let_def map_filter_simps)
  qed
qed

lemma findmax_loop_step:
  assumes i: "i < length tbl"
  shows "findmax_loop tbl (int (length tbl)) (int i) mx wm =
     (case tbl ! i of
        Empty \<Rightarrow> findmax_loop tbl (int (length tbl)) (int (Suc i)) mx wm
      | Entry k VNone \<Rightarrow> Inl TypeError
      | Entry k (VInt n) \<Rightarrow>
          if n > mx then findmax_loop tbl (int (length tbl)) (int (Suc i)) n (FMKey k)
          else findmax_loop tbl (int (length tbl)) (int (Suc i)) mx wm)"
  using i by (subst findmax_loop.simps) (simp add: add.commute split: slot.split pyval.split)

lemma findmax_loop_max_entry:
  assumes nv: "\<forall>sl\<in>set tbl. \<forall>k. sl \<noteq> Entry k VNone"
  shows "i \<le> length tbl \<Longrightarrow>
    findmax_loop tbl (int (length tbl)) (int i) mx wm = Inr (max_entry (drop i tbl) mx wm)"
proof (induction "length tbl - i" arbitrary: i mx wm)
  case 0
  then have "i = length tbl" by simp
  then show ?case by (simp add: findmax_loop.simps max_entry_def)
next
  case (Suc d)
  then have i: "i < length tbl" by simp
  have dr: "drop i tbl = tbl ! i # drop (Suc i) tbl" using i by (rule Cons_nth_drop_Suc [symmetric])
  have ih: "\<And>mx wm. findmax_loop tbl (int (length tbl)) (int (Suc i)) mx wm =
      Inr (max_entry (drop (Suc i) tbl) mx wm)"
    using Suc.hyps(1) [of "Suc i"] Suc.hyps(2) i by simp
  note step = findmax_loop_step [OF i, of mx wm]
  show ?case
  proof (cases "tbl ! i")
    case Empty
    with step ih dr show ?thesis by (simp add: max_entry_Empty)
  next
    case (Entry k v)
    then obtain n where v: "v = VInt n" using nv i by (cases v) (auto dest: nth_mem)
    show ?thesis
      using step ih dr Entry v max_entry_gt [of mx n k] max_entry_le [of n mx k] by simp
  qed
qed

lemma findmax_loop_none:
  assumes "Entry k VNone \<in> set (drop i tbl)"
  shows "findmax_loop tbl (int (length tbl)) (int i) mx wm = Inl TypeError"
  using assms
proof (induction "length tbl - i" arbitrary: i mx wm)
  case 0
  then show ?case by simp
next
  case (Suc d)
  then have i: "i < length tbl" by (cases "i < length tbl") auto
  have dr: "drop i tbl = tbl ! i # drop (Suc i) tbl" using i by (rule Cons_nth_drop_Suc [symmetric])
  have ih: "\<And>mx wm. Entry k VNone \<in> set (drop (Suc i) tbl) \<Longrightarrow>
      findmax_loop tbl (int (length tbl)) (int (Suc i)) mx wm = Inl TypeError"
    using Suc.hyps(1) [of "Suc i"] Suc.hyps(2) i by simp
  note step = findmax_loop_step [OF i, of mx wm]
  show ?case
  proof (cases "tbl ! i = Entry k VNone")
    case True
    with step show ?thesis by simp
  next
    case False
    with Suc.prems dr have "Entry k VNone \<in> set (drop (Suc i) tbl)" by simp
    with step ih show ?thesis by (auto split: slot.split pyval.split)
  qed
qed

section \<open>Properties of findMax\<close>

lemma findMax_loop_start:
  "int (length (table s)) = cap s \<Longrightarrow> 0 < cap s \<Longrightarrow>
   findMax s = findmax_loop (table s) (int (length (table s))) (int 0) 1 (FMCell (table s ! 0))"
  by (simp add: findMax_def)

text \<open>
  Claim C17: on a slot array of length \<^verbatim>\<open>cap > 0\<close> with no tombstone and no
  \<^verbatim>\<open>None\<close> value, \<^verbatim>\<open>findMax\<close> returns \<open>max_entry\<close>: the largest of 1 and the
  stored values, with the first key (in array order) that holds it when it exceeds 1.
\<close>

theorem findMax_max_entry:
  assumes "int (length (table s)) = cap s" "0 < cap s" "\<forall>sl\<in>set (table s). \<forall>k. sl \<noteq> Entry k VNone"
  shows "findMax s = Inr (max_entry (table s) 1 (FMCell (table s ! 0)))"
  using findMax_loop_start [OF assms(1,2)] findmax_loop_max_entry [OF assms(3), of 0] by simp

theorem findMax_max_entry_witness:
  "int (length (table count_table)) = cap count_table \<and> 0 < cap count_table \<and>
   findMax count_table = Inr (FMKey (KStr ''be''), 3)"
proof -
  have h: "int (length (table count_table)) = cap count_table" "0 < cap count_table"
      "\<forall>sl\<in>set (table count_table). \<forall>k. sl \<noteq> Entry k VNone"
    by (simp_all add: py_eval)
  have "max_entry (table count_table) 1 (FMCell (table count_table ! 0)) = (FMKey (KStr ''be''), 3)"
    by (simp add: py_eval)
  then show ?thesis using findMax_max_entry [OF h] h(1,2) by simp
qed

text \<open>
  Claim C24: on a slot array of length \<^verbatim>\<open>cap > 0\<close> that holds a tombstone, or any
  entry with the value \<^verbatim>\<open>None\<close>, \<^verbatim>\<open>findMax\<close> raises \<^verbatim>\<open>TypeError\<close>: the
  first such entry it reaches is compared with \<^verbatim>\<open>None > max\<close>.
\<close>

theorem findMax_none_raises:
  assumes "int (length (table s)) = cap s" "0 < cap s" "Entry k VNone \<in> set (table s)"
  shows "findMax s = Inl TypeError"
  using findMax_loop_start [OF assms(1,2)] findmax_loop_none [of k 0 "table s"] assms(3) by simp

theorem findMax_none_raises_witness:
  "int (length (table sample_table)) = cap sample_table \<and> 0 < cap sample_table \<and>
   Entry KDel VNone \<in> set (table sample_table) \<and> findMax sample_table = Inl TypeError"
proof -
  have h: "int (length (table sample_table)) = cap sample_table" "0 < cap sample_table"
      "Entry KDel VNone \<in> set (table sample_table)"
    by (simp_all add: py_eval)
  show ?thesis using findMax_none_raises [OF h] h by simp
qed

text \<open>
  Claim C25: when no value exceeds 1 (every word of the stream occurs once),
  \<^verbatim>\<open>findMax\<close> returns the cell \<^verbatim>\<open>table[0]\<close> itself, an entry or \<^verbatim>\<open>None\<close>, with
  the count 1, and not a key of the table.
\<close>

theorem findMax_all_ones:
  assumes "int (length (table s)) = cap s" "0 < cap s"
    and "\<forall>sl\<in>set (table s). \<forall>k v. sl = Entry k v \<longrightarrow> (\<exists>n. v = VInt n \<and> n \<le> 1)"
  shows "findMax s = Inr (FMCell (table s ! 0), 1)"
proof -
  have nv: "\<forall>sl\<in>set (table s). \<forall>k. sl \<noteq> Entry k VNone" using assms(3) by fastforce
  have "\<forall>x\<in>set (List.map_filter cell_val (table s)). x \<le> 1"
    using assms(3) by (auto simp: map_filter_def elim!: cell_val.elims)
  then have "Max (insert 1 (set (List.map_filter cell_val (table s)))) = 1"
    by (intro Max_eqI) auto
  then show ?thesis
    using findMax_loop_start [OF assms(1,2)] findmax_loop_max_entry [OF nv, of 0]
    by (simp add: max_entry_def)
qed

theorem findMax_all_ones_witness:
  "int (length (table (count_table\<lparr>table := [Entry (KStr ''to'') (VInt 1), Empty, Empty, Empty]\<rparr>))) =
     cap (count_table\<lparr>table := [Entry (KStr ''to'') (VInt 1), Empty, Empty, Empty]\<rparr>) \<and>
   0 < cap (count_table\<lparr>table := [Entry (KStr ''to'') (VInt 1), Empty, Empty, Empty]\<rparr>) \<and>
   findMax (count_table\<lparr>table := [Entry (KStr ''to'') (VInt 1), Empty, Empty, Empty]\<rparr>) =
     Inr (FMCell (Entry (KStr ''to'') (VInt 1)), 1)"
  using findMax_all_ones [of "count_table\<lparr>table := [Entry (KStr ''to'') (VInt 1), Empty, Empty, Empty]\<rparr>"]
  by (simp add: py_eval)

end
