(* ===== verification/Hashmap_Frame.thy ===== *)
theory Hashmap_Frame
  imports Hashmap_Machine Hashmap_FindMax
begin

text \<open>
  Facts about \<^verbatim>\<open>put\<close> that hold on any table, well-formed or not, proved by a second
  fixpoint induction over its body: the probe and collision counters never decrease along a
  run of calls, and a
  table whose cells are all free or hold a string key with an integer value keeps that
  shape when a string key with an integer value is put (\<open>cells_ok\<close>). The word loop of
  the driver builds such tables, so \<^verbatim>\<open>findMax\<close> never raises on them and reports
  the largest word count.
\<close>

section \<open>Definitions\<close>

definition cells_ok :: "slot list \<Rightarrow> bool" where
  "cells_ok tbl \<longleftrightarrow> (\<forall>sl\<in>set tbl. sl = Empty \<or> (\<exists>k n. sl = Entry (KStr k) (VInt n)))"

definition int_put :: "pykey \<Rightarrow> pyval \<Rightarrow> bool" where
  "int_put key v \<longleftrightarrow> (\<exists>k n. key = KStr k \<and> v = VInt n)"

definition frame_ok :: "hashmap \<Rightarrow> pykey \<Rightarrow> pyval \<Rightarrow> hashmap \<Rightarrow> bool" where
  "frame_ok s key v s' \<longleftrightarrow>
     probe s \<le> probe s' \<and> collision s \<le> collision s' \<and>
     (cells_ok (table s) \<and> int_put key v \<longrightarrow> cells_ok (table s'))"

section \<open>Cells\<close>

lemma cells_ok_update:
  assumes "cells_ok tbl" "sl = Empty \<or> (\<exists>k n. sl = Entry (KStr k) (VInt n))"
  shows "cells_ok (tbl[i := sl])"
  unfolding cells_ok_def
proof
  fix x assume "x \<in> set (tbl[i := sl])"
  then have "x \<in> insert sl (set tbl)" using set_update_subset_insert by (rule subsetD [rotated])
  then show "x = Empty \<or> (\<exists>k n. x = Entry (KStr k) (VInt n))" using assms unfolding cells_ok_def by blast
qed

lemma cells_ok_replicate [simp]: "cells_ok (replicate n Empty)"
  by (simp add: cells_ok_def)

lemma cells_ok_Cons [simp]:
  "cells_ok (sl # t) \<longleftrightarrow> (sl = Empty \<or> (\<exists>k n. sl = Entry (KStr k) (VInt n))) \<and> cells_ok t"
  by (simp add: cells_ok_def)

lemma cells_ok_int_put: "cells_ok tbl \<Longrightarrow> Entry key v \<in> set tbl \<Longrightarrow> int_put key v"
  by (auto simp: cells_ok_def int_put_def)

section \<open>The pieces of put\<close>

lemma put_probe_pr:
  assumes ret: "put_probe tbl key index fd pr = Some (Inr (i', fd', pr'))"
  shows "pr \<le> pr'"
proof -
  have "\<forall>a b c. (Inr (i', fd', pr') :: error + int \<times> int option \<times> int) = Inr (a, b, c) \<longrightarrow> pr \<le> c"
  proof (rule put_probe.raw_induct [where P = "\<lambda>tbl key index fd pr r.
      \<forall>a b c. r = Inr (a, b, c) \<longrightarrow> pr \<le> c", OF _ ret])
    fix f :: "slot list \<Rightarrow> pykey \<Rightarrow> int \<Rightarrow> int option \<Rightarrow> int \<Rightarrow> (int \<times> int option \<times> int) pyres"
      and tbl key and index :: int and fd and pr :: int and r
    assume IH: "\<And>tbl key index fd pr r. f tbl key index fd pr = Some r \<Longrightarrow>
        \<forall>a b c. r = Inr (a, b, c) \<longrightarrow> pr \<le> c"
      and eq: "(case py_nth tbl index of
        Inl e \<Rightarrow> Some (Inl e)
      | Inr sl \<Rightarrow>
          if occupied_other sl key then
            (let fd = (if sl = DELETED \<and> fd = None then Some index else fd);
                 i1 = (if index + 1 = int (length tbl) then 0 else index + 1)
             in case py_nth tbl i1 of
                  Inl e \<Rightarrow> Some (Inl e)
                | Inr sl1 \<Rightarrow>
                    if sl1 \<noteq> Empty then f tbl key (i1 + 1) fd (pr + 1)
                    else f tbl key i1 fd pr)
          else Some (Inr (index, fd, pr))) = Some r"
    show "\<forall>a b c. r = Inr (a, b, c) \<longrightarrow> pr \<le> c"
    proof (intro allI impI)
      fix a b c assume r: "r = Inr (a, b, c)"
      define fd1 where "fd1 = (\<lambda>sl. if sl = DELETED \<and> fd = None then Some index else fd)"
      define i1 where "i1 = (if index + 1 = int (length tbl) then 0 else index + 1)"
      show "pr \<le> c"
      proof (cases "py_nth tbl index")
        case (Inl e)
        with eq r show ?thesis by simp
      next
        case (Inr sl)
        show ?thesis
        proof (cases "occupied_other sl key")
          case False
          with eq r Inr show ?thesis by simp
        next
          case occ: True
          show ?thesis
          proof (cases "py_nth tbl i1")
            case (Inl e)
            with eq r Inr occ show ?thesis by (simp add: Let_def i1_def)
          next
            case (Inr sl1)
            show ?thesis
            proof (cases "sl1 = Empty")
              case True
              with eq \<open>py_nth tbl index = Inr sl\<close> occ Inr
              have "f tbl key i1 (fd1 sl) pr = Some r" by (simp add: Let_def i1_def fd1_def)
              with IH r show ?thesis by blast
            next
              case False
              with eq \<open>py_nth tbl index = Inr sl\<close> occ Inr
              have "f tbl key (i1 + 1) (fd1 sl) (pr + 1) = Some r" by (simp add: Let_def i1_def fd1_def)
              with IH [OF this] r show ?thesis by simp
            qed
          qed
        qed
      qed
    qed
  qed
  from this [rule_format, of i' fd' pr', OF refl] show ?thesis .
qed

lemma incr_loop_done:
  "incr_loop tbl key w c index = Inr (IncrDone t) \<Longrightarrow> \<exists>j. t = tbl[j := Entry key w]"
proof (induction tbl key w c index rule: incr_loop.induct)
  case (1 tbl key w c index)
  then show ?case
    by (subst (asm) incr_loop.simps)
       (auto split: if_splits sum.splits slot.splits dest: py_set_Inr)
qed

lemma get_value_mem:
  assumes "get nh s key = Some (Inr w)"
  shows "\<exists>k. Entry k w \<in> set (table s)"
proof -
  from assms obtain j sl where "py_nth (table s) j = Inr sl"
      "(case sl of Empty \<Rightarrow> Inl KeyError | Entry k v \<Rightarrow> Inr v) = (Inr w :: error + pyval)"
    by (auto simp: get_def pbind_eq_Some_Inr_iff sbind_eq_Inr_iff)
  then show ?thesis by (cases sl) (auto dest: py_nth_mem)
qed

lemma prelude_frame:
  assumes pp: "put_prelude nh s key v = Some (Inr r)"
  shows "(\<forall>s1. r = Inl s1 \<longrightarrow> frame_ok s key v s1) \<and>
    (\<forall>s1 index value1. r = Inr (s1, index, value1) \<longrightarrow> table s1 = table s \<and> cap s1 = cap s \<and>
       probe s \<le> probe s1 \<and> collision s \<le> collision s1 \<and>
       (cells_ok (table s) \<and> int_put key v \<longrightarrow> int_put key value1))"
proof -
  let ?s1 = "s\<lparr>probe := probe s + 1\<rparr>"
  obtain index sl where si: "start_index nh s key = Inr index" and nth: "py_nth (table s) index = Inr sl"
    using pp by (auto simp: put_prelude_def pbind_eq_Some_Inr_iff)
  show ?thesis
  proof (cases "sl = Empty")
    case True
    with pp si nth show ?thesis by (auto simp: put_prelude_def)
  next
    case ne: False
    obtain found where c: "contains nh ?s1 key = Some (Inr found)"
      using pp si nth ne by (auto simp: put_prelude_def Let_def pbind_eq_Some_Inr_iff)
    show ?thesis
    proof (cases found)
      case False
      with pp si nth ne c show ?thesis by (auto simp: put_prelude_def Let_def)
    next
      case True
      obtain old where g: "get nh ?s1 key = Some (Inr old)"
        using pp si nth ne c True by (auto simp: put_prelude_def Let_def pbind_eq_Some_Inr_iff)
      obtain value1 where a: "py_add1 old = Inr value1"
        using pp si nth ne c True g by (cases "py_add1 old") (auto simp: put_prelude_def Let_def)
      obtain ir where ir: "incr_loop (table s) key value1 (cap s) index = Inr ir"
        using pp si nth ne c True g a
        by (cases "incr_loop (table s) key value1 (cap s) index") (auto simp: put_prelude_def Let_def)
      have vi: "\<exists>n. value1 = VInt n" if "cells_ok (table s)"
      proof -
        obtain k where "Entry k old \<in> set (table s)" using get_value_mem [OF g] by auto
        with that have "\<exists>n. old = VInt n" unfolding cells_ok_def by blast
        with a show ?thesis by auto
      qed
      show ?thesis
      proof (cases ir)
        case (IncrDone t)
        obtain j where t: "t = (table s)[j := Entry key value1]" using incr_loop_done ir IncrDone by blast
        have r: "r = Inl (?s1\<lparr>table := t\<rparr>)"
          using pp si nth ne c True g a ir IncrDone by (simp add: put_prelude_def Let_def)
        have "cells_ok (table s) \<and> int_put key v \<longrightarrow> cells_ok t"
          using vi t cells_ok_update by (auto simp: int_put_def)
        with r show ?thesis by (simp add: frame_ok_def)
      next
        case (IncrFall i)
        have "r = Inr (?s1, i, value1)"
          using pp si nth ne c True g a ir IncrFall by (simp add: put_prelude_def Let_def)
        with vi show ?thesis by (auto simp: int_put_def)
      qed
    qed
  qed
qed

section \<open>Fixpoint induction\<close>

lemma place_frame:
  "put_place s key w index fd = Inr s2 \<Longrightarrow>
   probe s2 = probe s \<and> collision s2 = collision s \<and> cap s2 = cap s \<and>
   (\<exists>j. table s2 = (table s)[j := Entry key w])"
  by (auto simp: put_place_def put_write_def sbind_eq_Inr_iff split: if_splits dest!: py_set_Inr)

lemma grow_frame [simp]:
  "probe (grow s) = probe s" "collision (grow s) = collision s" "cells_ok (table (grow s))"
  by (simp_all add: grow_def)

lemma reinsert_frame:
  assumes IH: "\<And>t k u t'. f t k u = Some (Inr t') \<Longrightarrow> frame_ok t k u t'"
  shows "reinsert f xs s0 = Some (Inr s') \<Longrightarrow>
    probe s0 \<le> probe s' \<and> collision s0 \<le> collision s' \<and>
    (cells_ok (table s0) \<and> cells_ok xs \<longrightarrow> cells_ok (table s'))"
proof (induction xs arbitrary: s0)
  case Nil
  then show ?case by simp
next
  case (Cons x xs)
  show ?case
  proof (cases x)
    case Empty
    with Cons show ?thesis by simp
  next
    case (Entry k u)
    from Cons.prems Entry obtain s1 where s1: "f s0 k u = Some (Inr s1)" "reinsert f xs s1 = Some (Inr s')"
      by (auto simp: pbind_eq_Some_Inr_iff)
    have fr: "frame_ok s0 k u s1" using IH [OF s1(1)] .
    have "cells_ok (x # xs) \<Longrightarrow> int_put k u" using Entry by (auto simp: int_put_def)
    with fr Cons.IH [OF s1(2)] show ?thesis by (auto simp: frame_ok_def)
  qed
qed

lemma put_frame_step:
  assumes IH: "\<And>nh' t k u y. f nh' t k u = Some y \<Longrightarrow> \<forall>t'. y = Inr t' \<longrightarrow> frame_ok t k u t'"
    and body: "pbind (put_prelude nh s key v) (\<lambda>r. case r of Inl s_done \<Rightarrow> Some (Inr s_done)
          | Inr (s1, index, value1) \<Rightarrow>
            pbind (put_probe (table s1) key index None (probe s1)) (\<lambda>(index', firstDeleted, pr).
            pbind (Some (put_place (s1\<lparr>probe := pr\<rparr>) key value1 index' firstDeleted))
              (\<lambda>s2. pbind (Some (py_truediv (numkeys s2) (cap s2))) (\<lambda>load.
                 if maxload s2 < load then reinsert (f nh) (table s2) (grow s2)
                 else Some (Inr s2))))) = Some r"
  shows "\<forall>s'. r = Inr s' \<longrightarrow> frame_ok s key v s'"
proof (intro allI impI)
  fix s' assume r: "r = Inr s'"
  have IH': "frame_ok t k u t'" if "f nh t k u = Some (Inr t')" for t k u t'
    using IH [OF that] by blast
  from body r obtain r1 where p: "put_prelude nh s key v = Some (Inr r1)"
    and k: "(case r1 of Inl s_done \<Rightarrow> Some (Inr s_done)
          | Inr (s1, index, value1) \<Rightarrow>
            pbind (put_probe (table s1) key index None (probe s1)) (\<lambda>(index', firstDeleted, pr).
            pbind (Some (put_place (s1\<lparr>probe := pr\<rparr>) key value1 index' firstDeleted))
              (\<lambda>s2. pbind (Some (py_truediv (numkeys s2) (cap s2))) (\<lambda>load.
                 if maxload s2 < load then reinsert (f nh) (table s2) (grow s2)
                 else Some (Inr s2))))) = Some (Inr s')"
    by (auto simp: pbind_eq_Some_Inr_iff)
  note pf = prelude_frame [OF p]
  show "frame_ok s key v s'"
  proof (cases r1)
    case (Inl s_done)
    with k pf show ?thesis by simp
  next
    case (Inr c)
    obtain s1 index value1 where c: "c = (s1, index, value1)" by (cases c) auto
    from k Inr c obtain i' fd pr where pr: "put_probe (table s1) key index None (probe s1) = Some (Inr (i', fd, pr))"
      and k2: "pbind (Some (put_place (s1\<lparr>probe := pr\<rparr>) key value1 i' fd))
              (\<lambda>s2. pbind (Some (py_truediv (numkeys s2) (cap s2))) (\<lambda>load.
                 if maxload s2 < load then reinsert (f nh) (table s2) (grow s2)
                 else Some (Inr s2))) = Some (Inr s')"
      by (auto simp: pbind_eq_Some_Inr_iff)
    from k2 obtain s2 load where pl: "put_place (s1\<lparr>probe := pr\<rparr>) key value1 i' fd = Inr s2"
      and k3: "(if maxload s2 < load then reinsert (f nh) (table s2) (grow s2) else Some (Inr s2)) = Some (Inr s')"
      by (auto simp: pbind_eq_Some_Inr_iff)
    have s1: "table s1 = table s" "probe s \<le> probe s1" "collision s \<le> collision s1"
        "cells_ok (table s) \<and> int_put key v \<longrightarrow> int_put key value1"
      using pf Inr c by auto
    have le: "probe s1 \<le> pr" using put_probe_pr [OF pr] .
    obtain j where s2: "probe s2 = pr" "collision s2 = collision s1"
        "table s2 = (table s1)[j := Entry key value1]"
      using place_frame [OF pl] by auto
    have c2: "cells_ok (table s) \<and> int_put key v \<longrightarrow> cells_ok (table s2)"
      using s1 s2(3) cells_ok_update [of "table s" "Entry key value1" j] by (auto simp: int_put_def)
    have f2: "frame_ok s key v s2" using s1 s2 le c2 by (simp add: frame_ok_def)
    show ?thesis
    proof (cases "maxload s2 < load")
      case True
      with k3 have "reinsert (f nh) (table s2) (grow s2) = Some (Inr s')" by simp
      from reinsert_frame [OF IH' this] f2 show ?thesis by (auto simp: frame_ok_def)
    next
      case False
      with k3 f2 show ?thesis by simp
    qed
  qed
qed

lemma put_frame:
  assumes ret: "put nh s key v = Some (Inr s')"
  shows "frame_ok s key v s'"
proof -
  note R = put.raw_induct [where P = "\<lambda>nh s key v r. \<forall>s'. r = Inr s' \<longrightarrow> frame_ok s key v s'", OF _ ret]
  have "\<forall>t. (Inr s' :: error + hashmap) = Inr t \<longrightarrow> frame_ok s key v t"
    by (rule R, rule put_frame_step, assumption+)
  then show ?thesis by simp
qed

section \<open>Runs\<close>

fun int_op :: "hm_op \<Rightarrow> bool" where
  "int_op (OpPut key v) = int_put key v"
| "int_op (OpRemove key) = False"

lemma remove_counters:
  "remove nh s key = Some (Inr s') \<Longrightarrow> probe s' = probe s \<and> collision s' = collision s"
  by (auto simp: remove_def pbind_eq_Some_Inr_iff sbind_eq_Inr_iff split: if_splits)

lemma run_ops_frame:
  "run_ops nh ops s = Some (Inr s') \<Longrightarrow>
   probe s \<le> probe s' \<and> collision s \<le> collision s' \<and>
   (cells_ok (table s) \<and> list_all int_op ops \<longrightarrow> cells_ok (table s'))"
proof (induction ops arbitrary: s)
  case Nil
  then show ?case by simp
next
  case (Cons op ops)
  then obtain s1 where s1: "apply_op nh op s = Some (Inr s1)" "run_ops nh ops s1 = Some (Inr s')"
    by (auto simp: pbind_eq_Some_Inr_iff)
  have "probe s \<le> probe s1 \<and> collision s \<le> collision s1 \<and>
      (cells_ok (table s) \<and> int_op op \<longrightarrow> cells_ok (table s1))"
  proof (cases op)
    case (OpPut key v)
    with s1(1) put_frame [of nh s key v s1] show ?thesis by (simp add: frame_ok_def)
  next
    case (OpRemove key)
    with s1(1) remove_counters [of nh s key s1] show ?thesis by simp
  qed
  with Cons.IH [OF s1(2)] show ?case by auto
qed

section \<open>Properties\<close>

text \<open>
  Claim C13: along any run of \<^verbatim>\<open>put\<close> and \<^verbatim>\<open>remove\<close> calls that returns, the
  probe and collision counters never decrease (\<^verbatim>\<open>remove\<close> leaves them unchanged).
\<close>

theorem run_counters_monotone:
  assumes "run_ops nh ops s = Some (Inr s')"
  shows "probe s \<le> probe s' \<and> collision s \<le> collision s'"
  using run_ops_frame [OF assms] by simp

theorem run_counters_monotone_witness:
  "\<exists>s'. run_ops (\<lambda>_. 0) [OpPut (KStr ''b'') (VInt 1), OpPut (KStr ''f'') (VInt 1), OpRemove (KStr ''b'')]
          (hashmap_init 1 4 (7 / 10)) = Some (Inr s') \<and> probe s' = 1 \<and> collision s' = 1 \<and>
     probe (hashmap_init 1 4 (7 / 10)) \<le> probe s' \<and> collision (hashmap_init 1 4 (7 / 10)) \<le> collision s'"
proof -
  obtain s' where p: "run_ops (\<lambda>_. 0) [OpPut (KStr ''b'') (VInt 1), OpPut (KStr ''f'') (VInt 1), OpRemove (KStr ''b'')]
          (hashmap_init 1 4 (7 / 10)) = Some (Inr s')" "probe s' = 1" "collision s' = 1"
    by (simp add: py_eval)
  show ?thesis using run_counters_monotone [OF p(1)] p by blast
qed

section \<open>The report of the driver\<close>

lemma set_map_filter_cell_val:
  "set (List.map_filter cell_val tbl) = {n. \<exists>k. Entry k (VInt n) \<in> set tbl}"
proof (induction tbl)
  case (Cons sl tbl)
  then show ?case by (cases sl rule: cell_val.cases) (auto simp: map_filter_simps)
qed (simp add: map_filter_def)

lemma cell_values_abs:
  assumes "cells_ok tbl" "unique_keys tbl"
  shows "set (List.map_filter cell_val tbl) = {n. \<exists>k. abs_map tbl k = Some (VInt n)}"
proof -
  have "Entry k (VInt n) \<in> set tbl \<Longrightarrow> \<exists>k'. k = KStr k'" for k n
    using assms(1) by (auto simp: cells_ok_def)
  then have "(\<exists>k. Entry k (VInt n) \<in> set tbl) \<longleftrightarrow> (\<exists>k. Entry (KStr k) (VInt n) \<in> set tbl)" for n
    by blast
  then show ?thesis
    using abs_map_Some_iff [OF assms(2)] by (auto simp: set_map_filter_cell_val in_set_conv_nth)
qed

lemma Max_sandwich:
  assumes "finite B" "insert 1 A \<subseteq> insert 1 B" "insert 1 B \<subseteq> insert 0 (insert 1 A)"
  shows "Max (insert 1 A) = Max (insert (1 :: int) B)"
proof -
  have fA: "finite A" using assms(1,2) finite_subset by (metis finite_insert)
  have le: "Max (insert 1 A) \<le> Max (insert 1 B)" using assms(1,2) by (intro Max_mono) auto
  have "Max (insert 1 B) \<le> Max (insert 0 (insert 1 A))" using assms(3) fA by (intro Max_mono) auto
  also have "\<dots> = Max (insert 1 A)"
    using fA by (simp add: max_def) (metis Max_ge finite_insert insertI1 order.trans zero_le_one)
  finally show ?thesis using le by simp
qed

lemma put_words_state:
  assumes "0 < c" "0 < ml" "ml < 1" "put_words nh ws (hashmap_init t c ml) = Some (Inr s')"
  shows "wf nh s' \<and> cells_ok (table s')"
proof -
  let ?ops = "map (\<lambda>w. OpPut (KStr w) (VInt 1)) (filter (\<lambda>w. w \<noteq> []) ws)"
  have u: "list_all user_op ?ops" by (simp add: list_all_iff)
  have r: "run_ops nh ?ops (hashmap_init t c ml) = Some (Inr s')" using assms(4) by (simp add: put_words_def)
  have "wf nh s'" using run_ops_post [OF wf_init [OF assms(1-3), of nh t] u] r by auto
  moreover have "cells_ok (table s')"
    using run_ops_frame [OF r] by (simp add: hashmap_init_def list_all_iff int_put_def)
  ultimately show ?thesis ..
qed

lemma findMax_after_words:
  assumes "0 < c" "0 < ml" "ml < 1" "put_words nh ws (hashmap_init t c ml) = Some (Inr s')"
  shows "\<exists>w. findMax s' = Inr (w, Max (insert 1 ((\<lambda>x. int (word_count ws x)) ` set ws))) \<and>
    (Max (insert 1 ((\<lambda>x. int (word_count ws x)) ` set ws)) = 1 \<longrightarrow> w = FMCell (table s' ! 0)) \<and>
    (1 < Max (insert 1 ((\<lambda>x. int (word_count ws x)) ` set ws)) \<longrightarrow>
      (\<exists>k. w = FMKey (KStr k) \<and> int (word_count ws k) = Max (insert 1 ((\<lambda>x. int (word_count ws x)) ` set ws))))"
proof -
  let ?M = "Max (insert 1 ((\<lambda>x. int (word_count ws x)) ` set ws))"
  let ?t = "table s'"
  let ?V = "set (List.map_filter cell_val ?t)"
  have st: "wf nh s'" "cells_ok ?t" using put_words_state [OF assms] by auto
  have ab: "abs_map ?t w = (if word_count ws w = 0 then None else Some (VInt (int (word_count ws w))))" for w
    using put_words_abs [OF assms(1-3), of nh ws t] assms(4) by auto
  have len: "int (length ?t) = cap s'" "0 < cap s'" using st(1) by (auto simp: wf_def shape_ok_def)
  have nv: "\<forall>sl\<in>set ?t. \<forall>k. sl \<noteq> Entry k VNone" using st(2) by (auto simp: cells_ok_def)
  have fm: "findMax s' = Inr (max_entry ?t 1 (FMCell (?t ! 0)))"
    using findMax_loop_start [OF len] findmax_loop_max_entry [OF nv, of 0] by simp
  have uk: "unique_keys ?t" using st(1) by (simp add: wf_def keys_ok_def)
  have V: "?V = {n. \<exists>k. word_count ws k \<noteq> 0 \<and> n = int (word_count ws k)}"
    using cell_values_abs [OF st(2) uk] ab by auto
  have inws: "word_count ws k \<noteq> 0 \<Longrightarrow> k \<in> set ws" for k
    by (auto simp: word_count_def count_list_0_iff)
  have "Max (insert 1 ?V) = ?M"
    by (rule Max_sandwich) (auto simp: V inws)
  then have me: "max_entry ?t 1 (FMCell (?t ! 0)) =
      (if ?M = 1 then (FMCell (?t ! 0), 1)
       else (case find (\<lambda>sl. cell_val sl = Some ?M) ?t of
               Some (Entry k v) \<Rightarrow> (FMKey k, ?M) | _ \<Rightarrow> (FMCell (?t ! 0), ?M)))"
    by (simp add: max_entry_def Let_def)
  show ?thesis
  proof (cases "?M = 1")
    case True
    with fm me show ?thesis by simp
  next
    case False
    have "finite ?V" by simp
    then have "Max (insert 1 ?V) \<in> insert 1 ?V" by (intro Max_in) auto
    with False \<open>Max (insert 1 ?V) = ?M\<close> have "?M \<in> ?V" by simp
    then obtain k where f: "find (\<lambda>sl. cell_val sl = Some ?M) ?t = Some (Entry k (VInt ?M))"
      using find_cell_val by blast
    then have "Entry k (VInt ?M) \<in> set ?t" by (auto simp: find_Some_iff)
    then obtain k' where k': "k = KStr k'" "Entry (KStr k') (VInt ?M) \<in> set ?t"
      using st(2) by (auto simp: cells_ok_def)
    then have "abs_map ?t k' = Some (VInt ?M)"
      using abs_map_Some_iff [OF uk] by (auto simp: in_set_conv_nth)
    then have "int (word_count ws k') = ?M" using ab [of k'] by (auto split: if_splits)
    with fm me False f k' show ?thesis by auto
  qed
qed

text \<open>
  Claim C9: the report of the driver is right. After the word loop of
  \<^verbatim>\<open>testMapFile\<close> has run normally on a fresh table, \<^verbatim>\<open>findMax\<close> returns
  without raising; the count it reports is the largest number of occurrences of a word (at
  least 1), and when that exceeds 1 it reports a word that occurs that often.
\<close>

theorem word_report:
  assumes "0 < c" "0 < ml" "ml < 1" "put_words nh ws (hashmap_init t c ml) = Some (Inr s')"
  shows "\<exists>w. findMax s' = Inr (w, Max (insert 1 ((\<lambda>x. int (word_count ws x)) ` set ws))) \<and>
    (1 < Max (insert 1 ((\<lambda>x. int (word_count ws x)) ` set ws)) \<longrightarrow>
      (\<exists>k. w = FMKey (KStr k) \<and> int (word_count ws k) = Max (insert 1 ((\<lambda>x. int (word_count ws x)) ` set ws))))"
  using findMax_after_words [OF assms] by blast

theorem word_report_witness:
  "0 < (4::int) \<and> 0 < (7 / 10 :: rat) \<and> (7 / 10 :: rat) < 1 \<and>
   (\<exists>s'. put_words (\<lambda>_. 0) [''to'', ''be'', ''or'', ''to''] (hashmap_init 1 4 (7 / 10)) = Some (Inr s') \<and>
      findMax s' = Inr (FMKey (KStr ''to''), 2))"
proof -
  obtain s' where p: "put_words (\<lambda>_. 0) [''to'', ''be'', ''or'', ''to''] (hashmap_init 1 4 (7 / 10)) = Some (Inr s')"
    by (simp add: py_eval)
  have m: "Max (insert 1 ((\<lambda>x. int (word_count [''to'', ''be'', ''or'', ''to''] x)) ` set [''to'', ''be'', ''or'', ''to''])) = 2"
    by (simp add: word_count_def)
  from word_report [OF _ _ _ p] m obtain w k where w: "findMax s' = Inr (w, 2)"
      "w = FMKey (KStr k)" "int (word_count [''to'', ''be'', ''or'', ''to''] k) = 2"
    by auto
  then have "w = FMKey (KStr ''to'')"
    by (auto simp: word_count_def split: if_splits)
  with p w show ?thesis by auto
qed

end
