(* ===== verification/Hashmap_Driver.thy ===== *)
theory Hashmap_Driver
  imports Hashmap_Frame
begin

text \<open>
  The driver of \<^verbatim>\<open>src/hashmap.py\<close>. \<^verbatim>\<open>testMapFile\<close> (lines 219--234) puts every
  non-empty word of a corpus with the value 1 into three tables, one after the other for
  each word, and reports their six counters; \<^verbatim>\<open>testMap\<close> (lines 237--290) builds the
  three tables (strategies 0, 1 and 2, capacity 70000) for each of three corpora, runs
  \<^verbatim>\<open>testMapFile\<close> and reports \<^verbatim>\<open>findMax\<close> of each table. Reading the files, the
  regular-expression split, \<^verbatim>\<open>lower()\<close> and the formatting of the printed lines are not
  modelled: a corpus arrives as its list of lines, each a list of lower-cased words, and
  the model returns what the code prints. An exception of any call ends the driver.

  The three tables never share a cell, so the interleaved loop is equivalent to three
  separate word loops (\<open>tmf_words_split\<close>); it always returns, and when it returns
  normally every table reports the same largest count.
\<close>

section \<open>The driver\<close>

fun tmf_words :: "native_hash \<Rightarrow> string list \<Rightarrow> hashmap \<times> hashmap \<times> hashmap \<Rightarrow>
    (hashmap \<times> hashmap \<times> hashmap) pyres" where
  "tmf_words nh [] ms = Some (Inr ms)"
| "tmf_words nh (w # ws) (m0, m1, m2) =
     (if w \<noteq> [] then
        pbind (put nh m0 (KStr w) (VInt 1)) (\<lambda>m0'.
        pbind (put nh m1 (KStr w) (VInt 1)) (\<lambda>m1'.
        pbind (put nh m2 (KStr w) (VInt 1)) (\<lambda>m2'. tmf_words nh ws (m0', m1', m2'))))
      else tmf_words nh ws (m0, m1, m2))"

text \<open>
  \<^verbatim>\<open>printMap\<close> (lines 198--200) prints the row \<open>i: table[i]\<close> for \<open>i\<close> in
  \<^verbatim>\<open>range(map.cap)\<close>. The model returns the rows printed, as pairs of the index and
  the cell, and the exception that ended the loop, if any.
\<close>

fun print_rows :: "slot list \<Rightarrow> int list \<Rightarrow> (int \<times> slot) list \<times> error option" where
  "print_rows tbl [] = ([], None)"
| "print_rows tbl (i # is) =
     (case py_nth tbl i of
        Inl e \<Rightarrow> ([], Some e)
      | Inr sl \<Rightarrow> (let (rows, e) = print_rows tbl is in ((i, sl) # rows, e)))"

definition printMap :: "hashmap \<Rightarrow> (int \<times> slot) list \<times> error option" where
  "printMap s = print_rows (table s) (map int [0..<nat (cap s)])"

text \<open>The six numbers \<^verbatim>\<open>testMapFile\<close> prints: collisions, then probes, of each table.\<close>

definition testMapFile :: "native_hash \<Rightarrow> string list list \<Rightarrow> hashmap \<times> hashmap \<times> hashmap \<Rightarrow>
    ((hashmap \<times> hashmap \<times> hashmap) \<times> int list) pyres" where
  "testMapFile nh lines ms =
     pbind (tmf_words nh (concat lines) ms) (\<lambda>(m0, m1, m2).
       Some (Inr ((m0, m1, m2),
         [collision m0, collision m1, collision m2, probe m0, probe m1, probe m2])))"

text \<open>
  What \<^verbatim>\<open>testMap\<close> prints of one table (lines 245--246 and the like): the
  count and the word of \<^verbatim>\<open>findMax\<close>. The word is concatenated to a string,
  which raises \<^verbatim>\<open>TypeError\<close> unless \<^verbatim>\<open>findMax\<close> returned a key string and
  not the cell \<^verbatim>\<open>map.table[0]\<close> it starts from.
\<close>

definition report_max :: "hashmap \<Rightarrow> error + string \<times> int" where
  "report_max m =
     sbind (findMax m) (\<lambda>(w, mx). case w of FMKey (KStr k) \<Rightarrow> Inr (k, mx) | _ \<Rightarrow> Inl TypeError)"

text \<open>
  One corpus of \<^verbatim>\<open>testMap\<close> (lines 238--252), at the capacity \<open>c\<close> the code
  passes as \<^verbatim>\<open>initsz\<close> (70000 in \<open>testMap\<close>): the three reports it prints.
\<close>

definition test_corpus :: "native_hash \<Rightarrow> int \<Rightarrow> string list list \<Rightarrow> (string \<times> int) list pyres" where
  "test_corpus nh c lines =
     pbind (testMapFile nh lines (hashmap_init 0 c default_maxload, hashmap_init 1 c default_maxload,
                                  hashmap_init 2 c default_maxload)) (\<lambda>((m0, m1, m2), counters).
       Some (sbind (report_max m0) (\<lambda>r0. sbind (report_max m1) (\<lambda>r1. sbind (report_max m2) (\<lambda>r2.
         Inr [r0, r1, r2])))))"

fun testMap :: "native_hash \<Rightarrow> string list list list \<Rightarrow> (string \<times> int) list list pyres" where
  "testMap nh [] = Some (Inr [])"
| "testMap nh (corpus # corpora) =
     pbind (test_corpus nh 70000 corpus) (\<lambda>r. pbind (testMap nh corpora) (\<lambda>rs. Some (Inr (r # rs))))"

text \<open>The largest number of occurrences of a non-empty word of a corpus, at least 1.\<close>

definition max_count :: "string list \<Rightarrow> int" where
  "max_count ws = Max (insert 1 ((\<lambda>x. int (word_count ws x)) ` set ws))"

declare printMap_def [py_eval] testMapFile_def [py_eval] report_max_def [py_eval] test_corpus_def [py_eval]
  max_count_def [py_eval]

section \<open>The word loop\<close>

lemma put_words_Nil [simp]: "put_words nh [] m = Some (Inr m)"
  by (simp add: put_words_def)

lemma put_words_Cons:
  "put_words nh (w # ws) m =
     (if w \<noteq> [] then pbind (put nh m (KStr w) (VInt 1)) (put_words nh ws) else put_words nh ws m)"
proof -
  have e: "put_words nh ws = run_ops nh (map (\<lambda>w. OpPut (KStr w) (VInt 1)) (filter (\<lambda>w. w \<noteq> []) ws))"
    by (rule ext) (simp add: put_words_def)
  show ?thesis unfolding put_words_def [of nh "w # ws"] e by simp
qed

lemma tmf_words_put_words:
  "tmf_words nh ws (m0, m1, m2) = Some (Inr (a, b, c)) \<longleftrightarrow>
   put_words nh ws m0 = Some (Inr a) \<and> put_words nh ws m1 = Some (Inr b) \<and>
   put_words nh ws m2 = Some (Inr c)"
proof (induction ws arbitrary: m0 m1 m2)
  case Nil
  then show ?case by auto
next
  case (Cons w ws)
  then show ?case by (auto simp: pbind_eq_Some_Inr_iff put_words_Cons)
qed

lemma tmf_words_returns:
  "wf nh m0 \<Longrightarrow> wf nh m1 \<Longrightarrow> wf nh m2 \<Longrightarrow> \<exists>r. tmf_words nh ws (m0, m1, m2) = Some r"
proof (induction ws arbitrary: m0 m1 m2)
  case Nil
  then show ?case by simp
next
  case (Cons w ws)
  show ?case
  proof (cases "w = []")
    case True
    with Cons show ?thesis by simp
  next
    case False
    have step: "\<exists>r. pbind (put nh m (KStr w) (VInt 1)) K = Some r"
      if wm: "wf nh m" and K: "\<And>m'. wf nh m' \<Longrightarrow> \<exists>r. K m' = Some r"
      for m and K :: "hashmap \<Rightarrow> 'b pyres"
    proof -
      obtain r where r: "put nh m (KStr w) (VInt 1) = Some r" using put_returns [OF wm] by blast
      show ?thesis
      proof (cases r)
        case (Inl e)
        with r show ?thesis by simp
      next
        case (Inr m')
        with r put_post_holds [OF wm] have "wf nh m'" by (simp add: put_post_def)
        with r Inr K show ?thesis by simp
      qed
    qed
    have k2: "\<exists>r. pbind (put nh m2 (KStr w) (VInt 1)) (\<lambda>m2'. tmf_words nh ws (a, b, m2')) = Some r"
      if "wf nh a" "wf nh b" for a b
      by (rule step [OF Cons.prems(3)]) (rule Cons.IH [OF that])
    have k1: "\<exists>r. pbind (put nh m1 (KStr w) (VInt 1)) (\<lambda>m1'.
        pbind (put nh m2 (KStr w) (VInt 1)) (\<lambda>m2'. tmf_words nh ws (a, m1', m2'))) = Some r"
      if "wf nh a" for a
      by (rule step [OF Cons.prems(2)]) (rule k2 [OF that])
    have "\<exists>r. pbind (put nh m0 (KStr w) (VInt 1)) (\<lambda>m0'. pbind (put nh m1 (KStr w) (VInt 1)) (\<lambda>m1'.
        pbind (put nh m2 (KStr w) (VInt 1)) (\<lambda>m2'. tmf_words nh ws (m0', m1', m2')))) = Some r"
      by (rule step [OF Cons.prems(1)]) (rule k1)
    with False show ?thesis by simp
  qed
qed

section \<open>The reports\<close>

lemma max_count_ge: "1 \<le> max_count ws"
  by (simp add: max_count_def)

lemma report_after_words:
  assumes "0 < c" "put_words nh ws (hashmap_init t c default_maxload) = Some (Inr s')"
  shows "(max_count ws = 1 \<and> report_max s' = Inl TypeError) \<or>
    (1 < max_count ws \<and> (\<exists>k. report_max s' = Inr (k, max_count ws) \<and> int (word_count ws k) = max_count ws))"
proof -
  obtain w where w: "findMax s' = Inr (w, max_count ws)"
    and one: "max_count ws = 1 \<longrightarrow> w = FMCell (table s' ! 0)"
    and gt: "1 < max_count ws \<longrightarrow> (\<exists>k. w = FMKey (KStr k) \<and> int (word_count ws k) = max_count ws)"
    using findMax_after_words [OF assms(1) _ _ assms(2)] unfolding max_count_def default_maxload_def
    by auto
  show ?thesis
  proof (cases "max_count ws = 1")
    case True
    with w one show ?thesis by (simp add: report_max_def)
  next
    case False
    with max_count_ge [of ws] have "1 < max_count ws" by simp
    with w gt show ?thesis by (auto simp: report_max_def)
  qed
qed

lemma test_corpus_Inr:
  assumes "test_corpus nh c lines = Some (Inr rs)"
  shows "\<exists>m0 m1 m2 r0 r1 r2. put_words nh (concat lines) (hashmap_init 0 c default_maxload) = Some (Inr m0) \<and>
    put_words nh (concat lines) (hashmap_init 1 c default_maxload) = Some (Inr m1) \<and>
    put_words nh (concat lines) (hashmap_init 2 c default_maxload) = Some (Inr m2) \<and>
    report_max m0 = Inr r0 \<and> report_max m1 = Inr r1 \<and> report_max m2 = Inr r2 \<and> rs = [r0, r1, r2]"
proof -
  obtain ms cs where t: "testMapFile nh lines (hashmap_init 0 c default_maxload, hashmap_init 1 c default_maxload,
      hashmap_init 2 c default_maxload) = Some (Inr (ms, cs))"
    and r: "(case (ms, cs) of ((m0, m1, m2), counters) \<Rightarrow>
       Some (sbind (report_max m0) (\<lambda>r0. sbind (report_max m1) (\<lambda>r1. sbind (report_max m2) (\<lambda>r2.
         Inr [r0, r1, r2]))))) = Some (Inr rs)"
    using assms unfolding test_corpus_def by (auto simp: pbind_eq_Some_Inr_iff)
  obtain m0 m1 m2 where ms: "ms = (m0, m1, m2)" by (cases ms) auto
  have "tmf_words nh (concat lines) (hashmap_init 0 c default_maxload, hashmap_init 1 c default_maxload,
      hashmap_init 2 c default_maxload) = Some (Inr (m0, m1, m2))"
    using t ms by (auto simp: testMapFile_def pbind_eq_Some_Inr_iff)
  then show ?thesis using r ms by (auto simp: tmf_words_put_words sbind_eq_Inr_iff)
qed

lemma test_corpus_returns:
  assumes "0 < c"
  shows "\<exists>r. test_corpus nh c lines = Some r"
proof -
  have w: "wf nh (hashmap_init t c default_maxload)" for t
    using wf_init [OF assms] by (simp add: default_maxload_def)
  obtain r where r: "tmf_words nh (concat lines) (hashmap_init 0 c default_maxload,
      hashmap_init 1 c default_maxload, hashmap_init 2 c default_maxload) = Some r"
    using tmf_words_returns [OF w w w] by blast
  then show ?thesis
    by (cases r) (auto simp: test_corpus_def testMapFile_def split: prod.splits)
qed

lemma print_rows_upt:
  "print_rows tbl (map int [i..<i + k]) =
     (map (\<lambda>j. (int j, tbl ! j)) [i..<min (i + k) (length tbl)],
      if 0 < k \<and> length tbl < i + k then Some IndexError else None)"
proof (induction k arbitrary: i)
  case (Suc k)
  have u: "[i..<i + Suc k] = i # [Suc i..<Suc i + k]" by (simp add: upt_conv_Cons del: upt_Suc)
  show ?case
  proof (cases "i < length tbl")
    case True
    then have "[i..<min (i + Suc k) (length tbl)] = i # [Suc i..<min (Suc i + k) (length tbl)]"
      by (simp add: upt_conv_Cons del: upt_Suc)
    moreover have "print_rows tbl (map int [Suc i..<Suc (i + k)]) =
        (map (\<lambda>j. (int j, tbl ! j)) [Suc i..<min (Suc (i + k)) (length tbl)],
         if 0 < k \<and> length tbl < Suc (i + k) then Some IndexError else None)"
      using Suc.IH [of "Suc i"] by (simp del: upt_Suc)
    ultimately show ?thesis using True unfolding u by (simp del: upt_Suc)
  next
    case False
    then show ?thesis unfolding u by (simp del: upt_Suc)
  qed
qed simp

section \<open>Properties of the driver\<close>

text \<open>
  Claim C12: the loop of \<^verbatim>\<open>testMapFile\<close> interleaves the three tables word by
  word, but they share no state, so it returns normally with three tables exactly when the
  word loop run on each table alone returns them. Empty words are skipped.
\<close>

theorem tmf_words_split:
  "tmf_words nh ws (m0, m1, m2) = Some (Inr (a, b, c)) \<longleftrightarrow>
   put_words nh ws m0 = Some (Inr a) \<and> put_words nh ws m1 = Some (Inr b) \<and>
   put_words nh ws m2 = Some (Inr c)"
  by (rule tmf_words_put_words)

theorem tmf_words_split_witness:
  "\<exists>a b c. tmf_words (\<lambda>_. 0) [''to'', '''', ''be'', ''to''] (hashmap_init 0 4 (7 / 10),
      hashmap_init 1 4 (7 / 10), hashmap_init 2 4 (7 / 10)) = Some (Inr (a, b, c)) \<and>
    put_words (\<lambda>_. 0) [''to'', '''', ''be'', ''to''] (hashmap_init 0 4 (7 / 10)) = Some (Inr a) \<and>
    put_words (\<lambda>_. 0) [''to'', '''', ''be'', ''to''] (hashmap_init 1 4 (7 / 10)) = Some (Inr b) \<and>
    put_words (\<lambda>_. 0) [''to'', '''', ''be'', ''to''] (hashmap_init 2 4 (7 / 10)) = Some (Inr c)"
proof -
  obtain a b c where t: "tmf_words (\<lambda>_. 0) [''to'', '''', ''be'', ''to''] (hashmap_init 0 4 (7 / 10),
      hashmap_init 1 4 (7 / 10), hashmap_init 2 4 (7 / 10)) = Some (Inr (a, b, c))"
    by (simp add: py_eval)
  show ?thesis using tmf_words_split [THEN iffD1, OF t] t by blast
qed

text \<open>
  Claim C11: the driver always returns: for every list of corpora \<^verbatim>\<open>testMap\<close>
  ends, with its reports or with an exception, and never loops.
\<close>

theorem testMap_returns: "\<exists>r. testMap nh corpora = Some r"
proof (induction corpora)
  case (Cons corpus corpora)
  obtain r where r: "test_corpus nh 70000 corpus = Some r" using test_corpus_returns by fastforce
  show ?case
  proof (cases r)
    case (Inr x)
    obtain rs where "testMap nh corpora = Some rs" using Cons.IH by blast
    with r Inr show ?thesis by (cases rs) simp_all
  qed (use r in simp)
qed simp

text \<open>
  Claim C10: when one corpus of \<^verbatim>\<open>testMap\<close> runs to the end, each of the three
  tables reports a word that occurs most often in the corpus with its number of
  occurrences, and that number exceeds 1.
\<close>

theorem test_corpus_report:
  assumes "0 < c" "test_corpus nh c lines = Some (Inr rs)"
  shows "1 < max_count (concat lines) \<and>
    (\<exists>k0 k1 k2. rs = [(k0, max_count (concat lines)), (k1, max_count (concat lines)), (k2, max_count (concat lines))] \<and>
       int (word_count (concat lines) k0) = max_count (concat lines) \<and>
       int (word_count (concat lines) k1) = max_count (concat lines) \<and>
       int (word_count (concat lines) k2) = max_count (concat lines))"
proof -
  obtain m0 m1 m2 r0 r1 r2 where p: "put_words nh (concat lines) (hashmap_init 0 c default_maxload) = Some (Inr m0)"
      "put_words nh (concat lines) (hashmap_init 1 c default_maxload) = Some (Inr m1)"
      "put_words nh (concat lines) (hashmap_init 2 c default_maxload) = Some (Inr m2)"
    and r: "report_max m0 = Inr r0" "report_max m1 = Inr r1" "report_max m2 = Inr r2" "rs = [r0, r1, r2]"
    using test_corpus_Inr [OF assms(2)] by blast
  note R = report_after_words [OF assms(1) p(1)] report_after_words [OF assms(1) p(2)]
    report_after_words [OF assms(1) p(3)]
  from R(1) r(1) have "1 < max_count (concat lines)" by auto
  with R r show ?thesis by auto
qed

theorem test_corpus_report_witness:
  "0 < (4::int) \<and> test_corpus (\<lambda>_. 0) 4 [[''to'', ''be''], [''to'']] =
     Some (Inr [(''to'', 2), (''to'', 2), (''to'', 2)])"
proof -
  have e: "test_corpus (\<lambda>_. 0) 4 [[''to'', ''be''], [''to'']] = Some (Inr [(''to'', 2), (''to'', 2), (''to'', 2)])"
    by (simp add: py_eval)
  have "1 < max_count (concat [[''to'', ''be''], [''to'']])" using test_corpus_report [OF _ e] by simp
  with e show ?thesis by simp
qed

text \<open>
  Claim C26: a corpus in which no word occurs twice makes \<^verbatim>\<open>testMap\<close> raise
  \<^verbatim>\<open>TypeError\<close> after the word loop: \<^verbatim>\<open>findMax\<close> returns the cell
  \<^verbatim>\<open>map.table[0]\<close> as the word, and the code concatenates it to a string.
\<close>

theorem test_corpus_no_repeat_raises:
  assumes "0 < c" "max_count (concat lines) = 1"
    and "tmf_words nh (concat lines) (hashmap_init 0 c default_maxload, hashmap_init 1 c default_maxload,
      hashmap_init 2 c default_maxload) = Some (Inr ms)"
  shows "test_corpus nh c lines = Some (Inl TypeError)"
proof -
  obtain m0 m1 m2 where ms: "ms = (m0, m1, m2)" by (cases ms) auto
  have "put_words nh (concat lines) (hashmap_init 0 c default_maxload) = Some (Inr m0)"
    using assms(3) ms tmf_words_put_words by blast
  from report_after_words [OF assms(1) this] assms(2) have "report_max m0 = Inl TypeError" by simp
  with assms(3) ms show ?thesis by (simp add: test_corpus_def testMapFile_def)
qed

theorem test_corpus_no_repeat_raises_witness:
  "0 < (4::int) \<and> max_count (concat [[''to'', ''be'']]) = 1 \<and>
   (\<exists>ms. tmf_words (\<lambda>_. 0) (concat [[''to'', ''be'']]) (hashmap_init 0 4 default_maxload,
      hashmap_init 1 4 default_maxload, hashmap_init 2 4 default_maxload) = Some (Inr ms)) \<and>
   test_corpus (\<lambda>_. 0) 4 [[''to'', ''be'']] = Some (Inl TypeError)"
proof -
  have m: "max_count (concat [[''to'', ''be'']]) = 1" by (simp add: max_count_def word_count_def)
  obtain ms where t: "tmf_words (\<lambda>_. 0) (concat [[''to'', ''be'']]) (hashmap_init 0 4 default_maxload,
      hashmap_init 1 4 default_maxload, hashmap_init 2 4 default_maxload) = Some (Inr ms)"
    by (simp add: py_eval)
  have c: "0 < (4::int)" by simp
  show ?thesis using test_corpus_no_repeat_raises [OF c m t] c m t by blast
qed

end
