(* ===== verification/Spec2Isabelle.thy ===== *)
theory Spec2Isabelle
  imports Hashmap_Driver
begin

text \<open>
  \<^bold>\<open>A verification model of \<^verbatim>\<open>src/hashmap.py\<close>.\<close>

  \<^bold>\<open>The program.\<close> One Python class, \<^verbatim>\<open>Hashmap\<close>, an open-addressed table with
  linear probing and tombstone deletion, plus module functions that scan a table
  (\<^verbatim>\<open>findMax\<close>, \<^verbatim>\<open>printMap\<close>) and a driver that feeds the words of text files
  into three tables, one per hash strategy (\<^verbatim>\<open>testMapFile\<close>, \<^verbatim>\<open>testMap\<close>). The
  parts interact only through the table's methods: \<^verbatim>\<open>put\<close> calls
  \<^verbatim>\<open>contains\<close> and \<^verbatim>\<open>get\<close>, and calls itself again from its rehash loop; every
  method computes its start index through the strategy chosen at construction.

  \<^bold>\<open>Theories, in dependency order.\<close>
  \<^item> \<open>HM_Prelude\<close>: the Python exceptions (\<open>error\<close>), results that may raise or not
    return (\<open>'a pyres\<close> with the binds \<open>sbind\<close>, \<open>pbind\<close>), Python list indexing
    (\<open>py_nth\<close>, \<open>py_set\<close>), cyclic distance \<open>cdist\<close>, and the \<open>py_eval\<close> rule
    collection that evaluates the model on concrete tables.
  \<^item> \<open>Hash_Strategy\<close>: \<^verbatim>\<open>hash_func\<close>, \<^verbatim>\<open>hash_func1\<close>, \<^verbatim>\<open>hash_func2\<close>
    (lines 154--196) as \<open>hash_func\<close>, \<open>hash_func1\<close> with \<open>hash_func1_loop\<close>,
    \<open>hash_func2\<close> with \<open>hash_func2_loop\<close>; the dispatch on \<^verbatim>\<open>hashtype\<close> and the
    reduction modulo the capacity (\<open>digest\<close>, \<open>py_mod\<close>, \<open>hash_index\<close>). Keys are
    \<open>KStr\<close> strings or \<open>KDel\<close>, the key of the \<^verbatim>\<open>DELETED\<close> sentinel, on which the
    two length-based strategies raise \<^verbatim>\<open>TypeError\<close>. Python's built-in
    \<^verbatim>\<open>hash\<close> is a parameter \<open>nh\<close> of every operation.
  \<^item> \<open>Hashmap_State\<close>: values \<open>pyval\<close>, cells \<open>slot\<close> (\<^verbatim>\<open>None\<close> is
    \<open>Empty\<close>; \<^verbatim>\<open>DELETED\<close> is the entry \<open>Entry KDel VNone\<close>, as in the code), the
    object as the record \<open>hashmap\<close> with the fields of \<^verbatim>\<open>__slots__\<close>, the constructor
    \<open>hashmap_init\<close>, the meaning of a table (\<open>abs_map\<close>, the map of its live string
    keys) and its well-formedness \<open>wf\<close> = \<open>shape_ok\<close> (array length, occupancy
    count, load factor) and \<open>keys_ok\<close> (distinct live keys, each reachable by linear
    probing from its home index).
  \<^item> \<open>Probe\<close>: the three scan loops: \<open>probe_find\<close> (the linear scan of
    \<^verbatim>\<open>get\<close>, \<^verbatim>\<open>contains\<close>, \<^verbatim>\<open>remove\<close>), \<open>put_probe\<close> (the scan of
    \<^verbatim>\<open>put\<close>, which skips a cell whenever the next one is occupied) and
    \<open>incr_loop\<close> (the non-wrapping scan of \<^verbatim>\<open>put\<close> for a present key).
  \<^item> \<open>Hashmap_Ops\<close>: \<open>get\<close>, \<open>contains\<close>, \<open>remove\<close> and \<open>put\<close>; \<open>put\<close> is
    \<open>put_prelude\<close>, \<open>put_probe\<close>, \<open>put_place\<close>, the load test and the rehash
    \<open>grow\<close> with \<open>reinsert\<close>, and is a \<^theory_text>\<open>partial_function (option)\<close> because
    its loops need not end and its rehash recurses into itself.
  \<^item> \<open>Hashmap_Run\<close>: sequences of \<open>put\<close> and \<open>remove\<close> calls (\<open>run_ops\<close>) and the
    word loop of the driver \<^verbatim>\<open>testMapFile\<close> (\<open>put_words\<close>, lines 224--228).
  \<^item> \<open>Hashmap_Lookup\<close>: on a well-formed table the linear scan always returns and stops
    at the key's cell exactly when \<open>abs_map\<close> holds the key; hence \<open>get\<close> and
    \<open>contains\<close> compute the abstract lookup and \<open>remove\<close> refines deletion and keeps
    \<open>wf\<close>; a removed key then reads as \<^verbatim>\<open>KeyError\<close>.
  \<^item> \<open>Hashmap_Insert\<close>: correctness of \<open>put\<close> against the abstract operation
    \<open>abs_put\<close> (insert when absent; old value plus one when present, as the code does).
    The prelude lemmas follow \<^verbatim>\<open>put\<close> branch by branch; \<open>put_front\<close> covers one
    unfolding of the body for any continuation; partial correctness is fixpoint induction
    (\<open>put.raw_induct\<close>) through the rehash \<open>reinsert\<close>; termination is an
    induction on the number \<open>n\<close> of doublings with \<open>numkeys + 1 \<le> maxload * cap *
    2 ^ n\<close>: every nested \<open>put\<close> of a rehash sees at most that many cells in use and
    a capacity at least twice as large, and at \<open>n = 0\<close> the load test cannot fire.
  \<^item> \<open>Hashmap_Machine\<close>: the table as a state machine. \<open>reachable\<close> is the inductive
    set of states a client history of string-keyed \<open>put\<close> and \<open>remove\<close> calls
    (\<open>user_op\<close>) leaves from \<open>hashmap_init\<close>; \<open>wf\<close> holds in all of them (rule
    induction), so the load factor is bounded and a free cell always exists. A run always
    returns and refines the run \<open>abs_run\<close> of the abstract operations; the word loop
    leaves the number of occurrences of each word (\<open>word_count\<close>). The error paths of
    the code are theorems over all well-formed tables: the skipping scan and the
    non-wrapping increment loop raise \<^verbatim>\<open>IndexError\<close>, and the rehash raises on
    every tombstone under strategies 1 and 2; three tables left by short runs
    (\<open>skip_table\<close>, \<open>wrap_table\<close>, \<open>tomb_table\<close>) witness them.
  \<^item> \<open>Hashmap_FindMax\<close>: \<^verbatim>\<open>findMax\<close> (lines 202--217) as \<open>findMax\<close> with the
    loop \<open>findmax_loop\<close> (a \<^theory_text>\<open>function\<close>, terminating because every step
    reads the array at an index below its length); it equals the declarative
    \<open>max_entry\<close> on tables without \<^verbatim>\<open>None\<close> values and raises
    \<^verbatim>\<open>TypeError\<close> on a tombstone.
  \<^item> \<open>Hashmap_Frame\<close>: a second fixpoint induction over \<open>put\<close> that needs no
    well-formedness: the \<^verbatim>\<open>probe\<close> and \<^verbatim>\<open>collision\<close> counters never decrease
    along a run,
    and a table whose cells are free or hold a string key with an integer value
    (\<open>cells_ok\<close>) keeps that shape under \<open>put\<close> of such a pair. The word loop
    therefore leaves tables on which \<open>findMax\<close> returns the largest word count.
  \<^item> \<open>Hashmap_Driver\<close>: \<^verbatim>\<open>printMap\<close> (lines 198--200) as \<open>printMap\<close> over
    \<open>print_rows\<close>, the rows printed with the exception that ends the loop;
    \<^verbatim>\<open>testMapFile\<close> (lines 219--234) as \<open>tmf_words\<close>, the interleaved word loop
    over the three tables, and \<open>testMapFile\<close>, which adds the six printed counters;
    \<^verbatim>\<open>testMap\<close> (lines 237--290) as \<open>test_corpus\<close> for one corpus (three fresh
    tables, the word loop, the three \<open>findMax\<close> reports \<open>report_max\<close>) and
    \<open>testMap\<close> over the list of corpora. The interleaved loop equals three separate
    loops; the driver always returns; a corpus that runs to the end reports its largest
    word count from every table, and a corpus with no repeated word raises
    \<^verbatim>\<open>TypeError\<close> when the report concatenates the cell \<^verbatim>\<open>findMax\<close>
    returns instead of a word.
  \<^item> this theory: this overview.

  \<^bold>\<open>Modelling choices.\<close> Python integers are \<open>int\<close> (digests do not wrap). The float
  \<^verbatim>\<open>maxload\<close> is a \<open>rat\<close>, and the test \<^verbatim>\<open>numkeys / cap > maxload\<close> is exact
  rational comparison; a float comparison differs only for ratios within one rounding
  step of \<^verbatim>\<open>maxload\<close>. Characters are bytes, so \<^verbatim>\<open>ord\<close> ranges over 0--255.
  Keys are strings (the driver's keys) or the sentinel's key; values are integers or
  \<^verbatim>\<open>None\<close>. Every exception of the code is a value: \<^verbatim>\<open>IndexError\<close> of a list
  access, \<^verbatim>\<open>AttributeError\<close> of \<^verbatim>\<open>None.key\<close>, \<^verbatim>\<open>TypeError\<close> of
  \<^verbatim>\<open>len\<close> on the sentinel, of \<^verbatim>\<open>None + 1\<close> or of \<^verbatim>\<open>None > max\<close>,
  \<^verbatim>\<open>KeyError\<close> of \<^verbatim>\<open>get\<close>, \<^verbatim>\<open>ZeroDivisionError\<close> of \<^verbatim>\<open>% 0\<close>. A loop
  that does not end is \<open>None\<close>; no fuel is used, and the termination of \<open>put\<close> on
  well-formed tables is a theorem. Python's recursion limit is not modelled: a rehash that
  recursed without end would be \<open>None\<close>, and the termination proof shows that it does
  not happen.

  \<^bold>\<open>Not modelled.\<close> The text the program prints: \<^verbatim>\<open>printMap\<close> and the
  driver are modelled up to the values they print (rows, counters, words and counts), not
  the formatting of the lines. The file reading, the regular-expression split and
  \<^verbatim>\<open>lower()\<close> of \<^verbatim>\<open>testMapFile\<close>: a corpus arrives as its list of lines, each a
  list of lower-cased words. The names of the three files of \<^verbatim>\<open>testMap\<close>: the
  model takes the list of corpora. The \<^verbatim>\<open>__main__\<close> guard, which only calls
  \<^verbatim>\<open>testMap\<close>. The return value of \<^verbatim>\<open>remove\<close>, always \<^verbatim>\<open>None\<close>: the
  model returns the updated table. The object an exception leaves behind: the model
  returns only the exception, and no theorem is about the state after one.

  \<^bold>\<open>What is proved.\<close> In order of importance: \<open>put\<close> keeps \<open>wf\<close>, refines
  \<open>abs_put\<close> and always returns; \<open>get\<close>, \<open>contains\<close> and \<open>remove\<close> refine
  lookup, membership and deletion; \<open>wf\<close> holds in every reachable state and bounds the
  load factor; whole runs and the word-count driver are correct; the driver equals three
  separate word loops, always returns and reports the largest word count; the counters
  only grow; the round trips of \<open>put\<close>/\<open>get\<close> and \<open>remove\<close>/\<open>get\<close>; the
  \<^verbatim>\<open>TypeError\<close> of \<open>put\<close> on a present \<^verbatim>\<open>None\<close> value; \<open>findMax\<close> against
  its reference; the digest loops against their closed sums and the anagram property of
  \<^verbatim>\<open>hash_func2\<close>; and, for all well-formed tables, the exceptions the code raises
  where the specification promises none: the skipping scan, the non-wrapping increment
  loop, the reinsertion of tombstones by the rehash, \<open>findMax\<close> on a tombstone or with
  no count above 1, and the driver on a corpus without a repeated word.
\<close>

end
